theory Spec2Isabelle
  imports Main "HOL-Library.Word" "HOL-Library.Monad_Syntax"
begin

section \<open>The store\<close>

text \<open>
  The package works on pointers: a value context \<open>V = *val\<close>, an object context
  \<open>K = *obj\<close>, the \<open>*writerWrapper\<close> behind every \<open>io.Writer\<close> field, and the
  \<open>paused *bool\<close> of a context, which points into the \<open>val\<close> that owns the context.
  Handles escape into the caller's closures, so the structs live in an explicit store and a
  handle is an address, or \<open>None\<close> for \<open>nil\<close>.  A computation that panics (a method called
  through a nil pointer or a nil interface) has the value \<open>None\<close>.
\<close>

type_synonym addr = nat

datatype error = Error string

text \<open>
  The caller's \<open>io.Writer\<close> is not part of the package.  It is kept as the list of byte
  slices it has been handed, one per call of \<open>Write\<close>, together with its answer to each
  call as a function of that list (the count it returns is never read by the package).
\<close>

record sink =
  chunks :: "string list"
  respond :: "string list \<Rightarrow> error option"

record writerWrapper =
  ww_w :: "addr option"
  ww_Err :: "error option"

text \<open>
  The three implementations of the interface \<open>jsonContext\<close>.  \<open>paused *bool\<close> is the
  address of the \<open>val\<close> whose \<open>paused\<close> field it points to.  A context struct is reachable
  only through the \<open>ctx\<close> field of one \<open>val\<close>, so it is stored inside that record.
\<close>

datatype jsonContext =
    jsonContextArray addr bool
  | jsonContextSingle addr
  | jsonContextObjectItem string addr

record val =
  val_w :: "addr option"
  val_ctx :: "jsonContext option"
  val_paused :: bool

record obj =
  obj_w :: "addr option"
  obj_nonEmpty :: bool
  obj_paused :: bool

text \<open>
  \<open>fresh\<close> is the next unused address.  \<open>vvars\<close> and \<open>kvars\<close> are the variables of the
  calling program that hold \<open>V\<close> and \<open>K\<close> handles; its closures capture them by reference.
\<close>

record state =
  sinks :: "addr \<Rightarrow> sink"
  wws :: "addr \<Rightarrow> writerWrapper"
  vals :: "addr \<Rightarrow> val"
  objs :: "addr \<Rightarrow> obj"
  fresh :: addr
  vvars :: "nat \<Rightarrow> addr option"
  kvars :: "nat \<Rightarrow> addr option"

section \<open>The standard library\<close>

text \<open>
  \<open>interface{}\<close> values handed to \<open>json.Marshal\<close>: a \<open>float64\<close> (carried as its 64 bits),
  a \<open>string\<close>, or any other value.  \<open>json.Marshal\<close> itself belongs to \<open>encoding/json\<close>;
  every operation takes it as the parameter \<open>M\<close>, returning the bytes and the error.
\<close>

datatype 'a any = Float64 "64 word" | GoString string | Value 'a

type_synonym 'a marshaler = "'a any \<Rightarrow> string \<times> error option"

text \<open>
  Modelled from the spec: \<open>strconv.FormatUint(val, 10)\<close> and \<open>strconv.FormatInt(val, 10)\<close>
  belong to Go's standard library and are missing from the repository; the spec has them
  as direct base-10 digit formatting.  An \<open>int64\<close> is the 64-bit word read by \<open>sint\<close>.
\<close>

definition digit10 :: "nat \<Rightarrow> char" where
  "digit10 d = ''0123456789'' ! d"

function digits10 :: "nat \<Rightarrow> string" where
  "digits10 n = (if n < 10 then [digit10 n] else digits10 (n div 10) @ [digit10 (n mod 10)])"
  by pat_completeness auto
termination
  by (relation "measure id") auto

declare digits10.simps [simp del]

definition FormatUint :: "64 word \<Rightarrow> string" where
  "FormatUint v = digits10 (unat v)"

definition FormatInt :: "64 word \<Rightarrow> string" where
  "FormatInt v = (if sint v < 0 then CHR ''-'' # digits10 (nat (- sint v)) else digits10 (nat (sint v)))"

section \<open>The sink wrapper\<close>

text \<open>\<open>ww.w.Write(p)\<close> on the caller's writer; a nil interface panics.\<close>

definition sink_Write :: "addr option \<Rightarrow> string \<Rightarrow> state \<Rightarrow> (error option \<times> state) option" where
  "sink_Write k p s =
     (case k of
        None \<Rightarrow> None
      | Some a \<Rightarrow>
          let h = chunks (sinks s a) @ [p]
          in Some (respond (sinks s a) h, s\<lparr>sinks := (sinks s)(a := (sinks s a)\<lparr>chunks := h\<rparr>)\<rparr>))"

definition writerWrapper_Write :: "addr \<Rightarrow> string \<Rightarrow> state \<Rightarrow> (error option \<times> state) option" where
  "writerWrapper_Write a p s =
     do {
       (err, s1) \<leftarrow> sink_Write (ww_w (wws s a)) p s;
       Some (err, if err \<noteq> None then s1\<lparr>wws := (wws s1)(a := (wws s1 a)\<lparr>ww_Err := err\<rparr>)\<rparr> else s1)
     }"

text \<open>
  \<open>w.Write(p)\<close> through the \<open>io.Writer\<close> field of a \<open>val\<close> or an \<open>obj\<close>, results dropped.
  The field only ever holds nil or a \<open>*writerWrapper\<close>.
\<close>

definition Write :: "addr option \<Rightarrow> string \<Rightarrow> state \<Rightarrow> state option" where
  "Write w p s = (case w of None \<Rightarrow> None | Some a \<Rightarrow> map_option snd (writerWrapper_Write a p s))"

section \<open>Contexts\<close>

definition obj_prewrite :: "addr \<Rightarrow> state \<Rightarrow> (bool \<times> state) option" where
  "obj_prewrite q s =
     (if obj_w (objs s q) = None \<and> obj_paused (objs s q) then Some (False, s)
      else do {
        s1 \<leftarrow> (if obj_nonEmpty (objs s q) then Write (obj_w (objs s q)) '','' s else Some s);
        Some (True, s1\<lparr>objs := (objs s1)(q := (objs s1 q)\<lparr>obj_nonEmpty := True\<rparr>)\<rparr>)
      })"

text \<open>
  \<open>ctx.prewrite(w)\<close>: the answer (single value context or not), the context struct as the
  call leaves it, and the store.
\<close>

fun jsonContext_prewrite ::
  "'a marshaler \<Rightarrow> jsonContext \<Rightarrow> addr option \<Rightarrow> state \<Rightarrow> ((bool \<times> jsonContext) \<times> state) option" where
  "jsonContext_prewrite M (jsonContextArray paused nonEmpty) w s =
     do {
       s1 \<leftarrow> (if nonEmpty then Write w '','' s else Some s);
       Some ((False, jsonContextArray paused True), s1)
     }"
| "jsonContext_prewrite M (jsonContextSingle paused) w s =
     Some ((True, jsonContextSingle paused), s)"
| "jsonContext_prewrite M (jsonContextObjectItem key q) w s =
     do {
       (ok, s1) \<leftarrow> obj_prewrite q s;
       s3 \<leftarrow> (if ok then do {
                 s2 \<leftarrow> Write w (fst (M (GoString key))) s1;
                 Write w '':'' s2
               } else Some s1);
       Some ((True, jsonContextObjectItem key q), s3)
     }"

fun jsonContext_pause :: "jsonContext \<Rightarrow> bool \<Rightarrow> state \<Rightarrow> state" where
  "jsonContext_pause (jsonContextArray paused nonEmpty) on s =
     s\<lparr>vals := (vals s)(paused := (vals s paused)\<lparr>val_paused := on\<rparr>)\<rparr>"
| "jsonContext_pause (jsonContextSingle paused) on s =
     s\<lparr>vals := (vals s)(paused := (vals s paused)\<lparr>val_paused := on\<rparr>)\<rparr>"
| "jsonContext_pause (jsonContextObjectItem key q) on s =
     s\<lparr>objs := (objs s)(q := (objs s q)\<lparr>obj_paused := on\<rparr>)\<rparr>"

section \<open>Value contexts\<close>

definition val_prewrite :: "'a marshaler \<Rightarrow> addr option \<Rightarrow> state \<Rightarrow> ((bool \<times> bool) \<times> state) option" where
  "val_prewrite M v s =
     (case v of
        None \<Rightarrow> Some ((False, False), s)
      | Some p \<Rightarrow>
          (case val_ctx (vals s p) of
             None \<Rightarrow> Some ((False, False), s)
           | Some c \<Rightarrow>
               if val_w (vals s p) = None \<or> val_paused (vals s p) then Some ((False, False), s)
               else do {
                 ((single, c'), s1) \<leftarrow> jsonContext_prewrite M c (val_w (vals s p)) s;
                 Some ((True, single), s1\<lparr>vals := (vals s1)(p := (vals s1 p)\<lparr>val_ctx := Some c'\<rparr>)\<rparr>)
               }))"

definition val_postwrite :: "addr \<Rightarrow> bool \<Rightarrow> state \<Rightarrow> state" where
  "val_postwrite p single s =
     (case val_ctx (vals s p) of
        None \<Rightarrow> s
      | Some c \<Rightarrow>
          let s1 = jsonContext_pause c False s
          in if single then s1\<lparr>vals := (vals s1)(p := (vals s1 p)\<lparr>val_ctx := None\<rparr>)\<rparr> else s1)"

definition val_Null :: "'a marshaler \<Rightarrow> addr option \<Rightarrow> state \<Rightarrow> state option" where
  "val_Null M v s =
     do {
       ((ok, single), s1) \<leftarrow> val_prewrite M v s;
       if ok then do {
         p \<leftarrow> v;
         s2 \<leftarrow> Write (val_w (vals s1 p)) ''null'' s1;
         Some (val_postwrite p single s2)
       } else Some s1
     }"

definition val_Marshal :: "'a marshaler \<Rightarrow> addr option \<Rightarrow> 'a any \<Rightarrow> state \<Rightarrow> (error option \<times> state) option" where
  "val_Marshal M v value s =
     do {
       ((ok, single), s1) \<leftarrow> val_prewrite M v s;
       if ok then do {
         p \<leftarrow> v;
         let (bytes, err) = M value;
         s2 \<leftarrow> (if err = None then Write (val_w (vals s1 p)) bytes s1 else Some s1);
         let s3 = val_postwrite p single s2;
         if err \<noteq> None then Some (err, s3) else Some (None, s3)
       } else Some (None, s1)
     }"

definition val_Bool :: "'a marshaler \<Rightarrow> addr option \<Rightarrow> bool \<Rightarrow> state \<Rightarrow> state option" where
  "val_Bool M v b s =
     do {
       ((ok, single), s1) \<leftarrow> val_prewrite M v s;
       if ok then do {
         p \<leftarrow> v;
         s2 \<leftarrow> (if b then Write (val_w (vals s1 p)) ''true'' s1
                else Write (val_w (vals s1 p)) ''false'' s1);
         Some (val_postwrite p single s2)
       } else Some s1
     }"

definition val_Int :: "'a marshaler \<Rightarrow> addr option \<Rightarrow> 64 word \<Rightarrow> state \<Rightarrow> state option" where
  "val_Int M v i s =
     do {
       ((ok, single), s1) \<leftarrow> val_prewrite M v s;
       if ok then do {
         p \<leftarrow> v;
         s2 \<leftarrow> Write (val_w (vals s1 p)) (FormatInt i) s1;
         Some (val_postwrite p single s2)
       } else Some s1
     }"

definition val_Uint :: "'a marshaler \<Rightarrow> addr option \<Rightarrow> 64 word \<Rightarrow> state \<Rightarrow> state option" where
  "val_Uint M v u s =
     do {
       ((ok, single), s1) \<leftarrow> val_prewrite M v s;
       if ok then do {
         p \<leftarrow> v;
         s2 \<leftarrow> Write (val_w (vals s1 p)) (FormatUint u) s1;
         Some (val_postwrite p single s2)
       } else Some s1
     }"

definition val_Float :: "'a marshaler \<Rightarrow> addr option \<Rightarrow> 64 word \<Rightarrow> state \<Rightarrow> state option" where
  "val_Float M v f s =
     do {
       ((ok, single), s1) \<leftarrow> val_prewrite M v s;
       if ok then do {
         p \<leftarrow> v;
         s2 \<leftarrow> Write (val_w (vals s1 p)) (fst (M (Float64 f))) s1;
         Some (val_postwrite p single s2)
       } else Some s1
     }"

definition val_String :: "'a marshaler \<Rightarrow> addr option \<Rightarrow> string \<Rightarrow> state \<Rightarrow> state option" where
  "val_String M v str s =
     do {
       ((ok, single), s1) \<leftarrow> val_prewrite M v s;
       if ok then do {
         p \<leftarrow> v;
         s2 \<leftarrow> Write (val_w (vals s1 p)) (fst (M (GoString str))) s1;
         Some (val_postwrite p single s2)
       } else Some s1
     }"

text \<open>
  \<open>Array\<close> and \<open>Object\<close> take the caller's function, which runs on the store; \<open>None\<close> is
  a nil function.  The local \<open>a\<close> (or \<open>jso\<close>) escapes to the heap as a fresh cell.
\<close>

definition val_Array ::
  "'a marshaler \<Rightarrow> addr option \<Rightarrow> (addr option \<Rightarrow> state \<Rightarrow> state option) option \<Rightarrow> state \<Rightarrow> state option" where
  "val_Array M v fn s =
     do {
       ((ok, single), s1) \<leftarrow> val_prewrite M v s;
       if ok then do {
         p \<leftarrow> v;
         c \<leftarrow> val_ctx (vals s1 p);
         let s2 = jsonContext_pause c True s1;
         s3 \<leftarrow> Write (val_w (vals s2 p)) ''['' s2;
         s6 \<leftarrow> (case fn of
                  None \<Rightarrow> Some s3
                | Some f \<Rightarrow> do {
                    let a = fresh s3;
                    let s4 = s3\<lparr>vals := (vals s3)(a := \<lparr>val_w = val_w (vals s3 p),
                                   val_ctx = Some (jsonContextArray a False), val_paused = False\<rparr>),
                                 fresh := Suc a\<rparr>;
                    s5 \<leftarrow> f (Some a) s4;
                    Some (s5\<lparr>vals := (vals s5)(a := (vals s5 a)\<lparr>val_w := None\<rparr>)\<rparr>)
                  });
         s7 \<leftarrow> Write (val_w (vals s6 p)) '']'' s6;
         Some (val_postwrite p single s7)
       } else Some s1
     }"

section \<open>Object contexts\<close>

definition obj_Item :: "addr option \<Rightarrow> string \<Rightarrow> state \<Rightarrow> (addr option \<times> state) option" where
  "obj_Item k key s =
     do {
       q \<leftarrow> k;
       if \<not> obj_paused (objs s q) then
         let a = fresh s
         in Some (Some a,
              s\<lparr>objs := (objs s)(q := (objs s q)\<lparr>obj_paused := True\<rparr>),
                vals := (vals s)(a := \<lparr>val_w = obj_w (objs s q),
                  val_ctx = Some (jsonContextObjectItem key q), val_paused = False\<rparr>),
                fresh := Suc a\<rparr>)
       else Some (None, s)
     }"

definition obj_Marshal :: "'a marshaler \<Rightarrow> addr option \<Rightarrow> 'a \<Rightarrow> state \<Rightarrow> (error option \<times> state) option" where
  "obj_Marshal M k anyMap s =
     (let (bytes, err) = M (Value anyMap)
      in if err \<noteq> None then Some (err, s)
         else if length bytes > 2 then do {
           q \<leftarrow> k;
           (ok, s1) \<leftarrow> obj_prewrite q s;
           if ok then do {
             s2 \<leftarrow> Write (obj_w (objs s1 q)) (drop 1 (take (length bytes - 1) bytes)) s1;
             Some (None, s2)
           } else Some (None, s1)
         } else Some (None, s))"

definition val_Object ::
  "'a marshaler \<Rightarrow> addr option \<Rightarrow> (addr option \<Rightarrow> state \<Rightarrow> state option) option \<Rightarrow> state \<Rightarrow> state option" where
  "val_Object M v fn s =
     do {
       ((ok, single), s1) \<leftarrow> val_prewrite M v s;
       if ok then do {
         p \<leftarrow> v;
         c \<leftarrow> val_ctx (vals s1 p);
         let s2 = jsonContext_pause c True s1;
         s3 \<leftarrow> Write (val_w (vals s2 p)) ''{'' s2;
         s6 \<leftarrow> (case fn of
                  None \<Rightarrow> Some s3
                | Some f \<Rightarrow> do {
                    let jso = fresh s3;
                    let s4 = s3\<lparr>objs := (objs s3)(jso := \<lparr>obj_w = val_w (vals s3 p),
                                   obj_nonEmpty = False, obj_paused = False\<rparr>),
                                 fresh := Suc jso\<rparr>;
                    s5 \<leftarrow> f (Some jso) s4;
                    Some (s5\<lparr>objs := (objs s5)(jso := (objs s5 jso)\<lparr>obj_w := None\<rparr>)\<rparr>)
                  });
         s7 \<leftarrow> Write (val_w (vals s6 p)) ''}'' s6;
         Some (val_postwrite p single s7)
       } else Some s1
     }"

section \<open>Introspection and the entry point\<close>

definition val_Finished :: "addr option \<Rightarrow> state \<Rightarrow> bool option" where
  "val_Finished v s = do { p \<leftarrow> v; Some (val_ctx (vals s p) = None) }"

definition val_Error :: "addr option \<Rightarrow> state \<Rightarrow> error option option" where
  "val_Error v s =
     do {
       p \<leftarrow> v;
       (case val_w (vals s p) of
          Some a \<Rightarrow> Some (ww_Err (wws s a))
        | None \<Rightarrow> Some None)
     }"

definition NewStreamWriter :: "addr option \<Rightarrow> state \<Rightarrow> addr option \<times> state" where
  "NewStreamWriter w s =
     (let ww = fresh s;
          s1 = s\<lparr>wws := (wws s)(ww := \<lparr>ww_w = w, ww_Err = None\<rparr>), fresh := Suc ww\<rparr>;
          v = fresh s1
      in (Some v,
          s1\<lparr>vals := (vals s1)(v := \<lparr>val_w = Some ww, val_ctx = Some (jsonContextSingle v),
                val_paused = False\<rparr>),
             fresh := Suc v\<rparr>))"

section \<open>Calling programs\<close>

text \<open>
  What a caller does with the handles: a straight-line program of method calls, the
  function literals passed to \<open>Array\<close> and \<open>Object\<close> being nested programs.  Variables
  are numbered; \<open>VArray x y body\<close> is \<open>x.Array(func(y V) { body })\<close>, \<open>KItem k y key\<close>
  is \<open>y = k.Item(key)\<close>, and the \<open>Nil\<close> forms pass a nil function.  A closure sees
  every variable, also those of the enclosing scopes, and what it assigns outlives it.
\<close>

datatype 'a cmd =
    VNull nat
  | VBool nat bool
  | VInt nat "64 word"
  | VUint nat "64 word"
  | VFloat nat "64 word"
  | VString nat string
  | VMarshal nat "'a any"
  | VArray nat nat "'a cmd list"
  | VArrayNil nat
  | VObject nat nat "'a cmd list"
  | VObjectNil nat
  | KItem nat nat string
  | KMarshal nat 'a

fun exec :: "'a marshaler \<Rightarrow> 'a cmd \<Rightarrow> state \<Rightarrow> state option"
  and exec_list :: "'a marshaler \<Rightarrow> 'a cmd list \<Rightarrow> state \<Rightarrow> state option" where
  "exec M (VNull x) s = val_Null M (vvars s x) s"
| "exec M (VBool x b) s = val_Bool M (vvars s x) b s"
| "exec M (VInt x i) s = val_Int M (vvars s x) i s"
| "exec M (VUint x u) s = val_Uint M (vvars s x) u s"
| "exec M (VFloat x f) s = val_Float M (vvars s x) f s"
| "exec M (VString x str) s = val_String M (vvars s x) str s"
| "exec M (VMarshal x value) s = map_option snd (val_Marshal M (vvars s x) value s)"
| "exec M (VArray x y body) s =
     val_Array M (vvars s x)
       (Some (\<lambda>a t. exec_list M body (t\<lparr>vvars := (vvars t)(y := a)\<rparr>))) s"
| "exec M (VArrayNil x) s = val_Array M (vvars s x) None s"
| "exec M (VObject x k body) s =
     val_Object M (vvars s x)
       (Some (\<lambda>jso t. exec_list M body (t\<lparr>kvars := (kvars t)(k := jso)\<rparr>))) s"
| "exec M (VObjectNil x) s = val_Object M (vvars s x) None s"
| "exec M (KItem k y key) s =
     do { (a, t) \<leftarrow> obj_Item (kvars s k) key s; Some (t\<lparr>vvars := (vvars t)(y := a)\<rparr>) }"
| "exec M (KMarshal k anyMap) s = map_option snd (obj_Marshal M (kvars s k) anyMap s)"
| "exec_list M [] s = Some s"
| "exec_list M (c # cs) s = do { t \<leftarrow> exec M c s; exec_list M cs t }"

text \<open>
  A run of a whole document: a writer that accepts everything (a \<open>strings.Builder\<close>) at
  address 0 of an otherwise empty store (\<open>boot\<close>), \<open>x0 := NewStreamWriter(w)\<close>, then the
  program.  \<open>written\<close> is what the writer
  at an address has received.
\<close>

definition builder :: sink where
  "builder = \<lparr>chunks = [], respond = (\<lambda>h. None)\<rparr>"

definition boot :: "sink \<Rightarrow> state" where
  "boot k =
     \<lparr>sinks = (\<lambda>a. k), wws = (\<lambda>a. \<lparr>ww_w = None, ww_Err = None\<rparr>),
      vals = (\<lambda>a. \<lparr>val_w = None, val_ctx = None, val_paused = False\<rparr>),
      objs = (\<lambda>a. \<lparr>obj_w = None, obj_nonEmpty = False, obj_paused = False\<rparr>),
      fresh = 1, vvars = (\<lambda>x. None), kvars = (\<lambda>x. None)\<rparr>"

definition start :: "sink \<Rightarrow> state" where
  "start k = (let (v, t) = NewStreamWriter (Some 0) (boot k) in t\<lparr>vvars := (vvars t)(0 := v)\<rparr>)"

definition written :: "addr \<Rightarrow> state \<Rightarrow> string" where
  "written a s = concat (chunks (sinks s a))"

definition run :: "'a marshaler \<Rightarrow> 'a cmd list \<Rightarrow> string option" where
  "run M prog = map_option (written 0) (exec_list M prog (start builder))"

text \<open>
  A marshaler for the examples: a value is given by what \<open>json.Marshal\<close> returns for it,
  a string without special characters is put in quotes, a float is not encoded.
\<close>

fun sample_Marshal :: "(string \<times> error option) marshaler" where
  "sample_Marshal (Value r) = r"
| "sample_Marshal (GoString str) = (CHR 0x22 # str @ [CHR 0x22], None)"
| "sample_Marshal (Float64 f) = ([], Some (Error ''unsupported value''))"

section \<open>Calls by kind\<close>

text \<open>
  The six scalar methods share one shape; \<open>val_scalar\<close> picks the method for a scalar
  argument, and \<open>val_call\<close> any of the nine value-writing methods, with the error that
  only \<open>Marshal\<close> returns.
\<close>

datatype scalar = SNull | SBool bool | SInt "64 word" | SUint "64 word" | SFloat "64 word" | SString string

fun val_scalar :: "'a marshaler \<Rightarrow> addr option \<Rightarrow> scalar \<Rightarrow> state \<Rightarrow> state option" where
  "val_scalar M v SNull s = val_Null M v s"
| "val_scalar M v (SBool b) s = val_Bool M v b s"
| "val_scalar M v (SInt i) s = val_Int M v i s"
| "val_scalar M v (SUint u) s = val_Uint M v u s"
| "val_scalar M v (SFloat f) s = val_Float M v f s"
| "val_scalar M v (SString str) s = val_String M v str s"

datatype 'a call =
    CScalar scalar
  | CMarshal "'a any"
  | CArray "(addr option \<Rightarrow> state \<Rightarrow> state option) option"
  | CObject "(addr option \<Rightarrow> state \<Rightarrow> state option) option"

fun val_call :: "'a marshaler \<Rightarrow> addr option \<Rightarrow> 'a call \<Rightarrow> state \<Rightarrow> (error option \<times> state) option" where
  "val_call M v (CScalar sc) s = map_option (Pair None) (val_scalar M v sc s)"
| "val_call M v (CMarshal value) s = val_Marshal M v value s"
| "val_call M v (CArray fn) s = map_option (Pair None) (val_Array M v fn s)"
| "val_call M v (CObject fn) s = map_option (Pair None) (val_Object M v fn s)"

section \<open>Reference texts and helpers of the statements\<close>

text \<open>The JSON text of a scalar: literal tokens, base-10 digits, the encoder's bytes.\<close>

fun scalar_text :: "'a marshaler \<Rightarrow> scalar \<Rightarrow> string" where
  "scalar_text M SNull = ''null''"
| "scalar_text M (SBool b) = (if b then ''true'' else ''false'')"
| "scalar_text M (SInt i) = FormatInt i"
| "scalar_text M (SUint u) = FormatUint u"
| "scalar_text M (SFloat f) = fst (M (Float64 f))"
| "scalar_text M (SString str) = fst (M (GoString str))"

text \<open>The number a string of decimal digits denotes.\<close>

definition decimal :: "string \<Rightarrow> nat" where
  "decimal ds = foldl (\<lambda>n c. 10 * n + (of_char c - 48)) 0 ds"

text \<open>
  The store after the wrapper at \<open>a\<close> has passed \<open>p\<close> on to the writer at \<open>k\<close>: the
  writer has one more chunk, and the wrapper's \<open>Err\<close> is the writer's answer if that is
  an error.
\<close>

definition forward :: "addr \<Rightarrow> addr \<Rightarrow> string \<Rightarrow> state \<Rightarrow> state" where
  "forward a k p s =
     (let h = chunks (sinks s k) @ [p]
      in s\<lparr>sinks := (sinks s)(k := (sinks s k)\<lparr>chunks := h\<rparr>),
           wws := (wws s)(a := (wws s a)\<lparr>ww_Err :=
                    (case respond (sinks s k) h of None \<Rightarrow> ww_Err (wws s a) | Some e \<Rightarrow> Some e)\<rparr>)\<rparr>)"

text \<open>Contexts that answer \<open>true\<close> to \<open>prewrite\<close>: "Single value context".\<close>

fun single_use :: "jsonContext \<Rightarrow> bool" where
  "single_use (jsonContextArray paused nonEmpty) = False"
| "single_use (jsonContextSingle paused) = True"
| "single_use (jsonContextObjectItem key q) = True"

text \<open>
  A caller writing through the wrapper several times in a row, keeping what each
  \<open>Write\<close> returned.
\<close>

fun ww_writes :: "addr \<Rightarrow> string list \<Rightarrow> state \<Rightarrow> (error option list \<times> state) option" where
  "ww_writes a [] s = Some ([], s)"
| "ww_writes a (p # ps) s =
     do {
       (e, t) \<leftarrow> writerWrapper_Write a p s;
       (es, u) \<leftarrow> ww_writes a ps t;
       Some (e # es, u)
     }"

text \<open>The last error among the answers \<open>es\<close>, or \<open>e0\<close> when none of them is an error.\<close>

definition last_error :: "error option \<Rightarrow> error option list \<Rightarrow> error option" where
  "last_error e0 es = last (e0 # filter (\<lambda>e. e \<noteq> None) es)"

text \<open>
  What the writer \<open>k\<close> answers, call by call, when it is handed the chunks \<open>ps\<close> one
  after the other.
\<close>

fun answers :: "sink \<Rightarrow> string list \<Rightarrow> error option list" where
  "answers k [] = []"
| "answers k (p # ps) = respond k (chunks k @ [p]) # answers (k\<lparr>chunks := chunks k @ [p]\<rparr>) ps"

text \<open>A writer that fails every call, with an error that names the chunk it was handed.\<close>

definition failing :: sink where
  "failing = \<lparr>chunks = [], respond = (\<lambda>h. Some (Error (last h)))\<rparr>"

text \<open>
  The chain \<open>k.Item(key).Method(args)\<close>, once for each pair of a key and a call.
\<close>

fun items :: "'a marshaler \<Rightarrow> addr option \<Rightarrow> (string \<times> 'a call) list \<Rightarrow> state \<Rightarrow> state option" where
  "items M k [] s = Some s"
| "items M k ((key, c) # kcs) s =
     do {
       (i, t) \<leftarrow> obj_Item k key s;
       (e, u) \<leftarrow> val_call M i c t;
       items M k kcs u
     }"

section \<open>Documents written the intended way\<close>

text \<open>
  A JSON document as a caller builds it: scalars, values handed to \<open>Marshal\<close>, arrays and
  objects.  \<open>put\<close> is the caller that writes one: each element of an array through the
  handle its function receives, each item of an object through \<open>k.Item(key)\<close>.
\<close>

datatype 'a json =
    JScalar scalar
  | JMarshal "'a any"
  | JArray "'a json list"
  | JObject "(string \<times> 'a json) list"

fun put :: "'a marshaler \<Rightarrow> 'a json \<Rightarrow> addr option \<Rightarrow> state \<Rightarrow> state option"
  and put_elems :: "'a marshaler \<Rightarrow> 'a json list \<Rightarrow> addr option \<Rightarrow> state \<Rightarrow> state option"
  and put_items :: "'a marshaler \<Rightarrow> (string \<times> 'a json) list \<Rightarrow> addr option \<Rightarrow> state \<Rightarrow> state option" where
  "put M (JScalar sc) v s = val_scalar M v sc s"
| "put M (JMarshal x) v s = map_option snd (val_Marshal M v x s)"
| "put M (JArray es) v s = val_Array M v (Some (\<lambda>a t. put_elems M es a t)) s"
| "put M (JObject kvs) v s = val_Object M v (Some (\<lambda>k t. put_items M kvs k t)) s"
| "put_elems M [] a s = Some s"
| "put_elems M (e # es) a s = do { t \<leftarrow> put M e a s; put_elems M es a t }"
| "put_items M [] k s = Some s"
| "put_items M ((key, e) # kvs) k s =
     do {
       (i, t) \<leftarrow> obj_Item k key s;
       u \<leftarrow> put M e i t;
       put_items M kvs k u
     }"

text \<open>The texts joined by commas: none before the first, none after the last.\<close>

fun commas :: "string list \<Rightarrow> string" where
  "commas [] = []"
| "commas [x] = x"
| "commas (x # y # ys) = x @ '','' @ commas (y # ys)"

text \<open>The JSON text of a document, the encoder giving the bytes of keys and of values.\<close>

fun render :: "'a marshaler \<Rightarrow> 'a json \<Rightarrow> string"
  and render_elems :: "'a marshaler \<Rightarrow> 'a json list \<Rightarrow> string list"
  and render_items :: "'a marshaler \<Rightarrow> (string \<times> 'a json) list \<Rightarrow> string list" where
  "render M (JScalar sc) = scalar_text M sc"
| "render M (JMarshal x) = fst (M x)"
| "render M (JArray es) = ''['' @ commas (render_elems M es) @ '']''"
| "render M (JObject kvs) = ''{'' @ commas (render_items M kvs) @ ''}''"
| "render_elems M [] = []"
| "render_elems M (e # es) = render M e # render_elems M es"
| "render_items M [] = []"
| "render_items M ((key, e) # kvs) =
     (fst (M (GoString key)) @ '':'' @ render M e) # render_items M kvs"

text \<open>Every \<open>Marshal\<close> in the document succeeds.\<close>

fun marshals :: "'a marshaler \<Rightarrow> 'a json \<Rightarrow> bool"
  and marshals_elems :: "'a marshaler \<Rightarrow> 'a json list \<Rightarrow> bool"
  and marshals_items :: "'a marshaler \<Rightarrow> (string \<times> 'a json) list \<Rightarrow> bool" where
  "marshals M (JScalar sc) = True"
| "marshals M (JMarshal x) = (snd (M x) = None)"
| "marshals M (JArray es) = marshals_elems M es"
| "marshals M (JObject kvs) = marshals_items M kvs"
| "marshals_elems M [] = True"
| "marshals_elems M (e # es) = (marshals M e \<and> marshals_elems M es)"
| "marshals_items M [] = True"
| "marshals_items M ((key, e) # kvs) = (marshals M e \<and> marshals_items M kvs)"

text \<open>
  A slot a caller may write to: allocated, with the wrapper \<open>a\<close> in front of the writer
  \<open>k\<close>, not paused, and with a context as the package builds it (\<open>paused\<close> pointing to
  the slot itself; an item's object context allocated and on the same wrapper).
\<close>

fun ctx_of :: "addr \<Rightarrow> addr \<Rightarrow> state \<Rightarrow> jsonContext \<Rightarrow> bool" where
  "ctx_of a p s (jsonContextArray paused nonEmpty) = (paused = p)"
| "ctx_of a p s (jsonContextSingle paused) = (paused = p)"
| "ctx_of a p s (jsonContextObjectItem key q) = (q < fresh s \<and> obj_w (objs s q) = Some a)"

definition live :: "addr \<Rightarrow> addr \<Rightarrow> state \<Rightarrow> addr \<Rightarrow> jsonContext \<Rightarrow> bool" where
  "live a k s p c =
     (p < fresh s \<and> val_w (vals s p) = Some a \<and> ww_w (wws s a) = Some k
      \<and> \<not> val_paused (vals s p) \<and> val_ctx (vals s p) = Some c \<and> ctx_of a p s c)"

text \<open>What the pre-write check of a context writes, and the context it leaves.\<close>

fun lead :: "'a marshaler \<Rightarrow> state \<Rightarrow> jsonContext \<Rightarrow> string list" where
  "lead M s (jsonContextArray paused nonEmpty) = (if nonEmpty then ['',''] else [])"
| "lead M s (jsonContextSingle paused) = []"
| "lead M s (jsonContextObjectItem key q) =
     (if obj_nonEmpty (objs s q) then ['',''] else []) @ [fst (M (GoString key)), '':'']"

fun armed :: "jsonContext \<Rightarrow> jsonContext" where
  "armed (jsonContextArray paused nonEmpty) = jsonContextArray paused True"
| "armed (jsonContextSingle paused) = jsonContextSingle paused"
| "armed (jsonContextObjectItem key q) = jsonContextObjectItem key q"

text \<open>The context a completed write leaves in the slot, and the object context behind an item.\<close>

definition spent :: "jsonContext \<Rightarrow> jsonContext option" where
  "spent c = (if single_use c then None else Some (armed c))"

fun item_obj :: "jsonContext \<Rightarrow> addr option" where
  "item_obj (jsonContextObjectItem key q) = Some q"
| "item_obj c = None"

text \<open>
  From \<open>s\<close> to \<open>t\<close> nothing allocated in \<open>s\<close> has changed but the slot \<open>P\<close> and the object
  context \<open>Q\<close>, and no wrapper has changed its writer.
\<close>

definition leaves :: "addr option \<Rightarrow> addr option \<Rightarrow> state \<Rightarrow> state \<Rightarrow> bool" where
  "leaves P Q s t =
     (fresh s \<le> fresh t
      \<and> (\<forall>p. p < fresh s \<and> Some p \<noteq> P \<longrightarrow> vals t p = vals s p)
      \<and> (\<forall>q. q < fresh s \<and> Some q \<noteq> Q \<longrightarrow> objs t q = objs s q)
      \<and> (\<forall>b. ww_w (wws t b) = ww_w (wws s b)))"

text \<open>
  What a completed write through the live slot \<open>p\<close> with context \<open>c\<close> has done when it
  leads from \<open>s\<close> to \<open>t\<close>: the writer has received the separator of the context and then
  \<open>txt\<close>, the slot holds the context a completed write leaves, the object context behind an
  item has an item and is released, and nothing else that was allocated has changed.
\<close>

definition wrote :: "'a marshaler \<Rightarrow> addr \<Rightarrow> state \<Rightarrow> addr \<Rightarrow> jsonContext \<Rightarrow> string \<Rightarrow> state \<Rightarrow> bool" where
  "wrote M k s p c txt t =
     (written k t = written k s @ concat (lead M s c) @ txt
      \<and> leaves (Some p) (item_obj c) s t
      \<and> vals t p = (vals s p)\<lparr>val_ctx := spent c\<rparr>
      \<and> (case item_obj c of
            None \<Rightarrow> True
          | Some q \<Rightarrow> objs t q = (objs s q)\<lparr>obj_nonEmpty := True, obj_paused := False\<rparr>))"

text \<open>An object context whose object is open and that no item holds.\<close>

definition open_obj :: "addr \<Rightarrow> addr \<Rightarrow> state \<Rightarrow> addr \<Rightarrow> bool" where
  "open_obj a k s q =
     (q < fresh s \<and> obj_w (objs s q) = Some a \<and> ww_w (wws s a) = Some k \<and> \<not> obj_paused (objs s q))"

text \<open>
  The same in the middle of a call, between its pre-write and its post-write: the context
  is still in the slot, and the pause flags are whatever the call has set.
\<close>

definition pending :: "'a marshaler \<Rightarrow> addr \<Rightarrow> state \<Rightarrow> addr \<Rightarrow> jsonContext \<Rightarrow> string \<Rightarrow> state \<Rightarrow> bool" where
  "pending M k s p c txt u =
     (written k u = written k s @ concat (lead M s c) @ txt
      \<and> leaves (Some p) (item_obj c) s u
      \<and> (\<exists>b. vals u p = (vals s p)\<lparr>val_ctx := Some (armed c), val_paused := b \<and> item_obj c = None\<rparr>)
      \<and> (case item_obj c of
            None \<Rightarrow> True
          | Some q \<Rightarrow> \<exists>b. objs u q = (objs s q)\<lparr>obj_nonEmpty := True, obj_paused := b\<rparr>))"

section \<open>Properties\<close>

subsection \<open>Nil handles\<close>

lemma val_prewrite_nil: "val_prewrite M None s = Some ((False, False), s)"
  by (simp add: val_prewrite_def)

lemma obj_Item_paused: "obj_paused (objs s q) \<Longrightarrow> obj_Item (Some q) key s = Some (None, s)"
  by (simp add: obj_Item_def)

lemma val_call_nil: "val_call M None c s = Some (None, s)"
proof (cases c)
  case (CScalar sc)
  then show ?thesis
    by (cases sc)
       (simp_all add: val_Null_def val_Bool_def val_Int_def val_Uint_def val_Float_def
          val_String_def val_prewrite_nil)
qed (simp_all add: val_Marshal_def val_Array_def val_Object_def val_prewrite_nil)

text \<open>
  C10.  Each of the nine value-writing methods, called on a nil \<open>V\<close> (the handle \<open>Item\<close>
  returns while the object context is paused by an unresolved item), returns without a
  panic and leaves the whole store as it was, so nothing is written; \<open>Marshal\<close> returns
  a nil error, and the function passed to \<open>Array\<close> or \<open>Object\<close> is not called.
\<close>

theorem nil_handle_noop:
  "val_Null M None s = Some s
   \<and> val_Bool M None b s = Some s
   \<and> val_Int M None i s = Some s
   \<and> val_Uint M None u s = Some s
   \<and> val_Float M None f s = Some s
   \<and> val_String M None str s = Some s
   \<and> val_Marshal M None x s = Some (None, s)
   \<and> val_Array M None fn s = Some s
   \<and> val_Object M None fn s = Some s"
  by (simp add: val_Null_def val_Bool_def val_Int_def val_Uint_def val_Float_def val_String_def
        val_Marshal_def val_Array_def val_Object_def val_prewrite_nil)

subsection \<open>Forwarding to the writer\<close>

lemma Write_attached: "ww_w (wws s a) = Some k \<Longrightarrow> Write (Some a) p s = Some (forward a k p s)"
  by (auto simp: Write_def writerWrapper_Write_def sink_Write_def forward_def Let_def)

lemma Write_nil: "Write None p s = None"
  by (simp add: Write_def)

lemma forward_fields [simp]:
  "vals (forward a k p s) = vals s"
  "objs (forward a k p s) = objs s"
  "fresh (forward a k p s) = fresh s"
  "vvars (forward a k p s) = vvars s"
  "kvars (forward a k p s) = kvars s"
  "ww_w (wws (forward a k p s) b) = ww_w (wws s b)"
  "chunks (sinks (forward a k p s) k) = chunks (sinks s k) @ [p]"
  "respond (sinks (forward a k p s) j) = respond (sinks s j)"
  "j \<noteq> k \<Longrightarrow> sinks (forward a k p s) j = sinks s j"
  "b \<noteq> a \<Longrightarrow> wws (forward a k p s) b = wws s b"
  by (simp_all add: forward_def Let_def)

lemma scalar_shape:
  "val_scalar M v sc s =
     do {
       ((ok, single), s1) \<leftarrow> val_prewrite M v s;
       if ok then do {
         p \<leftarrow> v;
         s2 \<leftarrow> Write (val_w (vals s1 p)) (scalar_text M sc) s1;
         Some (val_postwrite p single s2)
       } else Some s1
     }"
  by (cases sc)
     (simp_all add: val_Null_def val_Bool_def val_Int_def val_Uint_def val_Float_def
        val_String_def cong: if_cong)

lemma root_prewrite:
  "vals s p = \<lparr>val_w = Some a, val_ctx = Some (jsonContextSingle q), val_paused = False\<rparr> \<Longrightarrow>
   val_prewrite M (Some p) s = Some ((True, True), s)"
  by (simp add: val_prewrite_def fun_upd_idem)

text \<open>
  C5.  A scalar written to the root slot that \<open>NewStreamWriter\<close> has just returned:
  the call returns, the writer receives exactly one chunk, the JSON text of the scalar
  (\<open>null\<close>, \<open>true\<close>, \<open>false\<close>, the base-10 digits of an integer, the encoder's bytes for
  a float or a string), and the slot is \<open>Finished()\<close> afterwards.
\<close>

theorem scalar_on_fresh_root:
  "(let (v, s1) = NewStreamWriter (Some k) s
    in \<exists>t. val_scalar M v sc s1 = Some t
         \<and> chunks (sinks t k) = chunks (sinks s k) @ [scalar_text M sc]
         \<and> written k t = written k s @ scalar_text M sc
         \<and> val_Finished v t = Some True)"
  by (simp add: NewStreamWriter_def Let_def scalar_shape root_prewrite Write_attached
        val_postwrite_def val_Finished_def written_def)

subsection \<open>Base-10 digits\<close>

lemma FormatInt_examples: "FormatInt (-123) = ''-123''" "FormatUint 456 = ''456''" "FormatInt 0 = ''0''"
  by (simp_all add: FormatInt_def FormatUint_def digit10_def digits10.simps)

lemma decimal_snoc: "decimal (ds @ [c]) = 10 * decimal ds + (of_char c - 48)"
  by (simp add: decimal_def)

lemma of_char_digit10: "d < 10 \<Longrightarrow> of_char (digit10 d) = 48 + d"
proof -
  assume "d < 10"
  then have "d \<in> {0, 1, 2, 3, 4, 5, 6, 7, 8, 9}" by auto
  then show ?thesis by (auto simp: digit10_def)
qed

lemma decimal_digits10: "decimal (digits10 n) = n"
proof (induction n rule: digits10.induct)
  case (1 n)
  show ?case
  proof (cases "n < 10")
    case True
    then show ?thesis by (simp add: digits10.simps decimal_def of_char_digit10)
  next
    case False
    with 1 have "decimal (digits10 (n div 10)) = n div 10" by simp
    with False show ?thesis
      by (subst digits10.simps) (simp add: decimal_snoc of_char_digit10)
  qed
qed

lemma FormatUint_decimal: "decimal (FormatUint v) = unat v"
  by (simp add: FormatUint_def decimal_digits10)

lemma FormatInt_decimal:
  "FormatInt v = (if sint v < 0 then CHR ''-'' # ds else ds) \<Longrightarrow> int (decimal ds) = \<bar>sint v\<bar>"
  by (auto simp: FormatInt_def decimal_digits10 split: if_splits)

subsection \<open>The pre-write and post-write protocol\<close>

lemma val_prewrite_refused:
  "val_prewrite M (Some p) s = Some ((False, single), s1) \<Longrightarrow> s1 = s \<and> \<not> single"
  by (auto simp: val_prewrite_def split: option.splits if_splits bind_splits prod.splits)

lemma val_Array_ok:
  assumes "val_prewrite M (Some p) s = Some ((True, single), s1)"
    and "val_Array M (Some p) fn s = Some t"
  shows "\<exists>s2. t = val_postwrite p single s2"
  using assms by (auto simp: val_Array_def Let_def split: bind_splits)

lemma val_Object_ok:
  assumes "val_prewrite M (Some p) s = Some ((True, single), s1)"
    and "val_Object M (Some p) fn s = Some t"
  shows "\<exists>s2. t = val_postwrite p single s2"
  using assms by (auto simp: val_Object_def Let_def split: bind_splits)

lemma val_Marshal_ok:
  assumes "val_prewrite M (Some p) s = Some ((True, single), s1)"
    and "val_Marshal M (Some p) x s = Some (e, t)"
  shows "\<exists>s2. t = val_postwrite p single s2"
  using assms by (auto simp: val_Marshal_def Let_def split: bind_splits prod.splits if_splits)

lemma val_scalar_ok:
  assumes "val_prewrite M (Some p) s = Some ((True, single), s1)"
    and "val_scalar M (Some p) sc s = Some t"
  shows "\<exists>s2. t = val_postwrite p single s2"
  using assms by (auto simp: scalar_shape split: bind_splits)

lemma val_call_ok:
  assumes "val_prewrite M (Some p) s = Some ((True, single), s1)"
    and "val_call M (Some p) c s = Some (e, t)"
  shows "\<exists>s2. t = val_postwrite p single s2"
  using assms by (cases c) (auto dest: val_Array_ok val_Object_ok val_Marshal_ok val_scalar_ok)

lemma val_call_refused:
  assumes "val_prewrite M (Some p) s = Some ((False, single), s1)"
  shows "val_call M (Some p) c s = Some (None, s)"
proof -
  from val_prewrite_refused [OF assms] have "s1 = s" by simp
  with assms show ?thesis
    by (cases c) (simp_all add: scalar_shape val_Marshal_def val_Array_def val_Object_def)
qed

lemma val_call_pre:
  assumes "val_call M (Some p) c s = Some (e, t)"
  shows "\<exists>ok single s1. val_prewrite M (Some p) s = Some ((ok, single), s1)"
proof (cases "val_prewrite M (Some p) s")
  case None
  with assms show ?thesis
    by (cases c) (simp_all add: scalar_shape val_Marshal_def val_Array_def val_Object_def)
next
  case (Some r)
  then show ?thesis by (cases r) auto
qed

lemma val_prewrite_single:
  "val_prewrite M (Some p) s = Some ((True, single), s1) \<Longrightarrow> val_ctx (vals s p) = Some c \<Longrightarrow>
   single = single_use c"
  by (cases c) (auto simp: val_prewrite_def split: option.splits if_splits bind_splits prod.splits)

lemma val_postwrite_single: "val_ctx (vals (val_postwrite p True s) p) = None"
  by (simp add: val_postwrite_def Let_def split: option.splits)

lemma val_prewrite_finished:
  "val_ctx (vals s p) = None \<Longrightarrow> val_prewrite M (Some p) s = Some ((False, False), s)"
  by (simp add: val_prewrite_def)

text \<open>
  A slot whose writer has been cleared (the inner slot of an array once \<open>Array\<close> has
  returned) and a slot that is paused (a root or array slot while the function of its own
  \<open>Array\<close> or \<open>Object\<close> runs) refuse every call.
\<close>

lemma val_call_detached:
  assumes "val_w (vals s p) = None"
  shows "val_call M (Some p) c s = Some (None, s)"
proof -
  from assms have "val_prewrite M (Some p) s = Some ((False, False), s)"
    by (simp add: val_prewrite_def split: option.splits)
  then show ?thesis by (rule val_call_refused)
qed

lemma val_call_paused:
  assumes "val_paused (vals s p)"
  shows "val_call M (Some p) c s = Some (None, s)"
proof -
  from assms have "val_prewrite M (Some p) s = Some ((False, False), s)"
    by (simp add: val_prewrite_def split: option.splits)
  then show ?thesis by (rule val_call_refused)
qed

text \<open>Unfolding a whole run on a concrete program.\<close>

lemmas run_defs = run_def start_def boot_def builder_def NewStreamWriter_def written_def Let_def
  val_Null_def val_Bool_def val_Int_def val_Uint_def val_Float_def val_String_def val_Marshal_def
  val_Array_def val_Object_def obj_Item_def obj_Marshal_def obj_prewrite_def val_prewrite_def
  val_postwrite_def Write_def writerWrapper_Write_def sink_Write_def val_Finished_def val_Error_def

text \<open>
  C9.  A slot with a single value context (the root slot's \<open>jsonContextSingle\<close> or an
  object item's \<open>jsonContextObjectItem\<close>), any first call (scalar, \<open>Marshal\<close>, \<open>Array\<close>
  or \<open>Object\<close> with any function) that returns, and any second call on the same slot:
  the second call returns a nil error and leaves the whole store, and with it every
  writer's bytes, exactly as the first call left it.
\<close>

theorem second_write_ignored:
  assumes "val_ctx (vals s p) = Some c" and "single_use c"
    and "val_call M (Some p) c1 s = Some (e, t)"
  shows "val_call M (Some p) c2 t = Some (None, t)"
proof -
  from val_call_pre [OF assms(3)] obtain ok single s1
    where pre: "val_prewrite M (Some p) s = Some ((ok, single), s1)" by blast
  have "\<exists>b u. val_prewrite M (Some p) t = Some ((False, b), u)"
  proof (cases ok)
    case True
    with pre have pre': "val_prewrite M (Some p) s = Some ((True, single), s1)" by simp
    from val_call_ok [OF pre' assms(3)] obtain s2 where t: "t = val_postwrite p single s2" ..
    from val_prewrite_single [OF pre' assms(1)] assms(2) have "single" by simp
    with t have "val_ctx (vals t p) = None" by (simp add: val_postwrite_single)
    then have "val_prewrite M (Some p) t = Some ((False, False), t)" by (rule val_prewrite_finished)
    then show ?thesis by blast
  next
    case False
    with pre have pre': "val_prewrite M (Some p) s = Some ((False, single), s1)" by simp
    from val_call_refused [OF pre'] assms(3) have "t = s" by simp
    with pre' show ?thesis by blast
  qed
  then obtain b u where "val_prewrite M (Some p) t = Some ((False, b), u)" by blast
  then show ?thesis by (rule val_call_refused)
qed

theorem second_write_ignored_witness:
  "\<exists>t. val_call sample_Marshal (Some 2) (CScalar (SInt 123)) (start builder) = Some (None, t)
      \<and> val_call sample_Marshal (Some 2) (CScalar (SString ''Ignored'')) t = Some (None, t)
      \<and> written 0 t = ''123''"
proof -
  have c: "val_ctx (vals (start builder) 2) = Some (jsonContextSingle 2)"
    by (simp add: start_def boot_def NewStreamWriter_def Let_def)
  obtain t where t: "val_call sample_Marshal (Some 2) (CScalar (SInt 123)) (start builder) = Some (None, t)"
    and w: "written 0 t = ''123''"
    by (simp add: run_defs FormatInt_examples FormatInt_def digits10.simps digit10_def)
  from second_write_ignored [OF c _ t, of "CScalar (SString ''Ignored'')"] t w
  show ?thesis by simp
qed

subsection \<open>The package's own tests\<close>

text \<open>
  The model run on call patterns of the package's test file, with the outputs the tests
  expect: \<open>Test_IgnoreWriteDataAfterFinish\<close>, \<open>Test_Array\<close>,
  \<open>Test_IgnoreArrayWriteInNestedContext\<close>, \<open>Test_IgnoreParentWriteInArrayContext\<close>,
  \<open>Test_Object\<close>, \<open>Test_MarshalInsideObject\<close>, \<open>Test_ObjectItemsWithoutValue\<close>,
  \<open>Test_IgnoreObjectWriteInNestedContext\<close> and \<open>Test_IgnoreObjectItemSubsequentValues\<close>.
\<close>

lemma test_IgnoreWriteDataAfterFinish:
  "run sample_Marshal [VInt 0 123, VString 0 ''Ignored''] = Some ''123''"
  by (simp add: run_defs FormatInt_def digits10.simps digit10_def)

lemma test_Array:
  "run sample_Marshal [VArrayNil 0] = Some ''[]''"
  "run sample_Marshal
     [VArray 0 1 [VInt 1 123, VString 1 ''abc'', VArray 1 2 [VString 2 ''nested''], VBool 1 True]]
   = Some ''[123,\"abc\",[\"nested\"],true]''"
  by (simp_all add: run_defs FormatInt_def digits10.simps digit10_def)

lemma test_IgnoreArrayWriteInNestedContext:
  "run sample_Marshal [VArray 0 1 [VInt 1 1, VObject 1 1 [VInt 1 2], VInt 1 3]] = Some ''[1,{},3]''"
  by (simp add: run_defs FormatInt_def digits10.simps digit10_def)

lemma test_IgnoreParentWriteInArrayContext:
  "run sample_Marshal [VArray 0 1 [VInt 0 123, VInt 1 456, VInt 0 789]] = Some ''[456]''"
  by (simp add: run_defs FormatInt_def digits10.simps digit10_def)

lemma test_Object:
  "run sample_Marshal [VObjectNil 0] = Some ''{}''"
  "run sample_Marshal
     [VObject 0 1 [KItem 1 2 ''x'', VInt 2 123,
        KItem 1 3 ''nested'', VObject 3 4 [KItem 4 5 ''y'', VArray 5 6 [VBool 6 False]],
        KItem 1 7 ''z'', VObjectNil 7]]
   = Some ''{\"x\":123,\"nested\":{\"y\":[false]},\"z\":{}}''"
  by (simp_all add: run_defs FormatInt_def digits10.simps digit10_def)

lemma test_MarshalInsideObject:
  "run sample_Marshal
     [VObject 0 1 [KMarshal 1 (''{}'', None), KItem 1 2 ''y'', VNull 2]]
   = Some ''{\"y\":null}''"
  "run sample_Marshal
     [VObject 0 1 [KItem 1 2 ''x'', VInt 2 123,
        KMarshal 1 (''{\"mA\":\"abc\",\"mB\":\"def\"}'', None),
        KItem 1 3 ''y'', VBool 3 True]]
   = Some ''{\"x\":123,\"mA\":\"abc\",\"mB\":\"def\",\"y\":true}''"
  by (simp_all add: run_defs FormatInt_def digits10.simps digit10_def)

lemma test_ObjectItemsWithoutValue:
  "run sample_Marshal [VObject 0 1 [KItem 1 2 ''ignored'']] = Some ''{}''"
  "run sample_Marshal [VObject 0 1 [KItem 1 2 ''x'', VInt 2 123, KItem 1 3 ''ignored'']]
   = Some ''{\"x\":123}''"
  "run sample_Marshal
     [VObject 0 1 [KItem 1 2 ''x'', VInt 2 123, KItem 1 3 ''ignored'', KItem 1 4 ''y'', VInt 4 456]]
   = Some ''{\"x\":123}''"
  by (simp_all add: run_defs FormatInt_def digits10.simps digit10_def)

lemma test_IgnoreObjectWriteInNestedContext:
  "run sample_Marshal
     [VObject 0 1 [KItem 1 2 ''a'', VInt 2 1,
        KItem 1 3 ''b'', VArray 3 9 [KItem 1 4 ''c'', VInt 4 2],
        KItem 1 5 ''d'', VObject 5 8 [KItem 1 6 ''e'', VInt 6 3],
        KItem 1 7 ''f'', VInt 7 4]]
   = Some ''{\"a\":1,\"b\":[],\"d\":{},\"f\":4}''"
  by (simp add: run_defs FormatInt_def digits10.simps digit10_def)

lemma test_IgnoreObjectItemSubsequentValues:
  "run sample_Marshal
     [VObject 0 1 [KItem 1 2 ''x'', VInt 2 123, VString 2 ''Ignored!'', VInt 2 789,
        KItem 1 3 ''y'', VInt 3 456]]
   = Some ''{\"x\":123,\"y\":456}''"
  by (simp add: run_defs FormatInt_def digits10.simps digit10_def)

subsection \<open>The latched error\<close>

lemma writerWrapper_Write_attached:
  "ww_w (wws s a) = Some k \<Longrightarrow>
   writerWrapper_Write a p s = Some (respond (sinks s k) (chunks (sinks s k) @ [p]), forward a k p s)"
  by (auto simp: writerWrapper_Write_def sink_Write_def forward_def Let_def)

lemma last_error_Cons:
  "last_error e0 (e # es) = last_error (case e of None \<Rightarrow> e0 | Some x \<Rightarrow> Some x) es"
  by (cases e) (simp_all add: last_error_def)

lemma sinks_forward: "sinks (forward a k p s) k = (sinks s k)\<lparr>chunks := chunks (sinks s k) @ [p]\<rparr>"
  by (simp add: forward_def Let_def)

lemma ww_Err_forward:
  "ww_Err (wws (forward a k p s) a)
     = (case respond (sinks s k) (chunks (sinks s k) @ [p]) of None \<Rightarrow> ww_Err (wws s a) | Some x \<Rightarrow> Some x)"
  by (simp add: forward_def Let_def)

text \<open>
  C1, as the code has it.  A wrapper with the writer \<open>k\<close> behind it, and a slot that
  writes through this wrapper.  Whatever chunks are written through the wrapper, every
  write is passed on to the writer (also after an error) and returns the writer's own
  answer; the wrapper's \<open>Err\<close> ends as the last error among the writer's answers (each
  failing write replaces it, a write that succeeds leaves it alone), or as it was when the
  writer never failed; and \<open>Error()\<close> on the slot reports exactly that error.
\<close>

theorem wrapper_keeps_last_error:
  assumes "ww_w (wws s a) = Some k" and "val_w (vals s p) = Some a"
  shows "\<exists>t. ww_writes a ps s = Some (answers (sinks s k) ps, t)
           \<and> chunks (sinks t k) = chunks (sinks s k) @ ps
           \<and> ww_Err (wws t a) = last_error (ww_Err (wws s a)) (answers (sinks s k) ps)
           \<and> val_Error (Some p) t = Some (last_error (ww_Err (wws s a)) (answers (sinks s k) ps))"
  using assms
proof (induction ps arbitrary: s)
  case Nil
  then show ?case by (simp add: last_error_def val_Error_def)
next
  case (Cons x ps)
  let ?e = "respond (sinks s k) (chunks (sinks s k) @ [x])"
  let ?t = "forward a k x s"
  from Cons.prems(1) have w: "writerWrapper_Write a x s = Some (?e, ?t)"
    by (rule writerWrapper_Write_attached)
  from Cons.prems have "ww_w (wws ?t a) = Some k" and "val_w (vals ?t p) = Some a" by simp_all
  from Cons.IH [OF this] obtain u
    where u: "ww_writes a ps ?t = Some (answers (sinks ?t k) ps, u)"
      and c: "chunks (sinks u k) = chunks (sinks ?t k) @ ps"
      and e: "ww_Err (wws u a) = last_error (ww_Err (wws ?t a)) (answers (sinks ?t k) ps)"
      and r: "val_Error (Some p) u = Some (last_error (ww_Err (wws ?t a)) (answers (sinks ?t k) ps))"
    by blast
  have a: "answers (sinks s k) (x # ps) = ?e # answers (sinks ?t k) ps"
    by (simp add: sinks_forward)
  have l: "last_error (ww_Err (wws s a)) (?e # answers (sinks ?t k) ps)
             = last_error (ww_Err (wws ?t a)) (answers (sinks ?t k) ps)"
    by (simp only: last_error_Cons ww_Err_forward)
  from w u have "ww_writes a (x # ps) s = Some (?e # answers (sinks ?t k) ps, u)" by simp
  with c e r a l show ?case by simp
qed

theorem wrapper_keeps_last_error_witness:
  "\<exists>t. ww_writes 1 [''a'', ''b''] (start failing) = Some ([Some (Error ''a''), Some (Error ''b'')], t)
      \<and> chunks (sinks t 0) = [''a'', ''b'']
      \<and> ww_Err (wws t 1) = Some (Error ''b'')
      \<and> val_Error (Some 2) t = Some (Some (Error ''b''))"
proof -
  have a: "ww_w (wws (start failing) 1) = Some 0"
    and v: "val_w (vals (start failing) 2) = Some 1"
    and b: "chunks (sinks (start failing) 0) = []"
    and c: "ww_Err (wws (start failing) 1) = None"
    and d: "answers (sinks (start failing) 0) [''a'', ''b''] = [Some (Error ''a''), Some (Error ''b'')]"
    by (simp_all add: start_def boot_def NewStreamWriter_def Let_def failing_def)
  have l: "last_error None [Some (Error ''a''), Some (Error ''b'')] = Some (Error ''b'')"
    by (simp add: last_error_def)
  from wrapper_keeps_last_error [OF a v, of "[''a'', ''b'']"] obtain t
    where "ww_writes 1 [''a'', ''b''] (start failing)
             = Some (answers (sinks (start failing) 0) [''a'', ''b''], t)"
      and "chunks (sinks t 0) = chunks (sinks (start failing) 0) @ [''a'', ''b'']"
      and "ww_Err (wws t 1)
             = last_error (ww_Err (wws (start failing) 1)) (answers (sinks (start failing) 0) [''a'', ''b''])"
      and "val_Error (Some 2) t
             = Some (last_error (ww_Err (wws (start failing) 1)) (answers (sinks (start failing) 0) [''a'', ''b'']))"
    by blast
  with b c d l show ?thesis by (intro exI [of _ t]) simp
qed

text \<open>
  C1 as stated does not hold.  The writer \<open>failing\<close> answers the first write with
  \<open>Error a\<close> and the second with \<open>Error b\<close>; \<open>Error()\<close> on the root slot then reports
  \<open>Error b\<close>, not the first error.  The same through the API: \<open>Array(nil)\<close> writes
  the two brackets, and \<open>Error()\<close> reports the error of the closing one.
\<close>

theorem first_error_overwritten:
  "map_option (\<lambda>(es, t). (es, val_Error (Some 2) t)) (ww_writes 1 [''a'', ''b''] (start failing))
     = Some ([Some (Error ''a''), Some (Error ''b'')], Some (Some (Error ''b'')))
   \<and> map_option (val_Error (Some 2)) (exec_list sample_Marshal [VArrayNil 0] (start failing))
     = Some (Some (Some (Error '']'')))"
  by (simp add: run_defs failing_def)

subsection \<open>Marshal on a value context\<close>

text \<open>
  C2 fails on the code.  \<open>val.Marshal\<close> runs the pre-write check before \<open>json.Marshal\<close>
  and the post-write step whatever \<open>json.Marshal\<close> returns, where \<open>obj.Marshal\<close> marshals
  first and returns on an error.  So a \<open>Marshal\<close> that fails has already written what the
  context puts in front of a value, against the method's comment ("nothing is written to
  the stream"): in an array the comma, and \<open>nonEmpty\<close> is set, so the next element gets a
  second comma; on an item handle the key and the colon.  And the slot does not stay open:
  the root slot, open before the call, is \<open>Finished()\<close> after it.
\<close>

theorem failed_marshal_writes_and_retires:
  "run sample_Marshal
     [VArray 0 1 [VInt 1 1, VMarshal 1 (Value ([], Some (Error ''unsupported type''))), VInt 1 2]]
   = Some ''[1,,2]''
   \<and> run sample_Marshal
     [VObject 0 1 [KItem 1 2 ''k'', VMarshal 2 (Value ([], Some (Error ''unsupported type''))),
        KItem 1 3 ''n'', VInt 3 1]]
   = Some ''{\"k\":,\"n\":1}''
   \<and> map_option (\<lambda>(e, t). (e, val_Finished (Some 2) t, written 0 t))
     (val_Marshal sample_Marshal (Some 2) (Value ([], Some (Error ''unsupported type''))) (start builder))
   = Some (Some (Error ''unsupported type''), Some True, [])
   \<and> val_Finished (Some 2) (start builder) = Some False"
  by (simp add: run_defs FormatInt_def digits10.simps digit10_def)

subsection \<open>Marshal on an object context\<close>
lemma obj_prewrite_live:
  assumes "obj_w (objs s q) = Some a" and "ww_w (wws s a) = Some k"
  shows "obj_prewrite q s =
           Some (True, (if obj_nonEmpty (objs s q) then forward a k '','' s else s)
                  \<lparr>objs := (objs s)(q := (objs s q)\<lparr>obj_nonEmpty := True\<rparr>)\<rparr>)"
  using assms by (simp add: obj_prewrite_def Write_attached)

text \<open>
  C7.  \<open>Marshal\<close> on an object context whose object is still open (its \<open>w\<close> is a wrapper
  with a writer behind it).  A map encoded as braces around a non-empty \<open>inner\<close>: the call
  returns nil, the writer receives a comma exactly when \<open>nonEmpty\<close> was set, then \<open>inner\<close>
  as it is, and \<open>nonEmpty\<close> is set.  A map encoded as \<open>{}\<close>: the call returns nil and the
  store, \<open>nonEmpty\<close> included, is as before.  A map that fails to marshal: the call returns
  the error and the store is as before.
\<close>

theorem obj_Marshal_splices:
  assumes "obj_w (objs s q) = Some a" and "ww_w (wws s a) = Some k"
  shows "(M (Value m) = (CHR ''{'' # inner @ ''}'', None) \<and> inner \<noteq> [] \<longrightarrow>
            (\<exists>t. obj_Marshal M (Some q) m s = Some (None, t)
               \<and> chunks (sinks t k) =
                   chunks (sinks s k) @ (if obj_nonEmpty (objs s q) then ['','', inner] else [inner])
               \<and> obj_nonEmpty (objs t q)))
       \<and> (M (Value m) = (''{}'', None) \<longrightarrow> obj_Marshal M (Some q) m s = Some (None, s))
       \<and> (M (Value m) = (bytes, Some err) \<longrightarrow> obj_Marshal M (Some q) m s = Some (Some err, s))"
proof (intro conjI impI)
  assume "M (Value m) = (CHR ''{'' # inner @ ''}'', None) \<and> inner \<noteq> []"
  then have m0: "M (Value m) = (CHR ''{'' # inner @ ''}'', None)" and ne: "inner \<noteq> []" by simp_all
  define bs where "bs = CHR ''{'' # inner @ ''}''"
  from ne have l: "length bs > 2" by (cases inner) (simp_all add: bs_def)
  have d: "drop (Suc 0) (take (length bs - Suc 0) bs) = inner" by (simp add: bs_def)
  from m0 have m: "M (Value m) = (bs, None)" by (simp add: bs_def)
  show "\<exists>t. obj_Marshal M (Some q) m s = Some (None, t)
               \<and> chunks (sinks t k) =
                   chunks (sinks s k) @ (if obj_nonEmpty (objs s q) then ['','', inner] else [inner])
               \<and> obj_nonEmpty (objs t q)"
    using assms l by (simp add: obj_Marshal_def m d obj_prewrite_live Write_attached)
next
  assume "M (Value m) = (''{}'', None)"
  then show "obj_Marshal M (Some q) m s = Some (None, s)" by (simp add: obj_Marshal_def)
next
  assume "M (Value m) = (bytes, Some err)"
  then show "obj_Marshal M (Some q) m s = Some (Some err, s)" by (simp add: obj_Marshal_def)
qed

theorem obj_Marshal_splices_witness:
  "\<exists>t. obj_Marshal sample_Marshal (Some 3) (''{\"mA\":1}'', None)
          ((start builder)\<lparr>objs := (objs (start builder))
              (3 := \<lparr>obj_w = Some 1, obj_nonEmpty = True, obj_paused = False\<rparr>)\<rparr>)
        = Some (None, t)
      \<and> chunks (sinks t 0) = ['','', ''\"mA\":1''] \<and> obj_nonEmpty (objs t 3)"
proof -
  let ?s = "(start builder)\<lparr>objs := (objs (start builder))
              (3 := \<lparr>obj_w = Some 1, obj_nonEmpty = True, obj_paused = False\<rparr>)\<rparr>"
  have a: "obj_w (objs ?s 3) = Some 1" and b: "ww_w (wws ?s 1) = Some 0"
    and c: "chunks (sinks ?s 0) = []" and d: "obj_nonEmpty (objs ?s 3)"
    by (simp_all add: start_def boot_def builder_def NewStreamWriter_def Let_def)
  have e: "sample_Marshal (Value (''{\"mA\":1}'', None)) = (CHR ''{'' # ''\"mA\":1'' @ ''}'', None)
           \<and> ''\"mA\":1'' \<noteq> []"
    by simp
  from obj_Marshal_splices [OF a b, of sample_Marshal "(''{\"mA\":1}'', None)" "''\"mA\":1''"] e
  obtain t where "obj_Marshal sample_Marshal (Some 3) (''{\"mA\":1}'', None) ?s = Some (None, t)"
    and "chunks (sinks t 0) = chunks (sinks ?s 0) @ (if obj_nonEmpty (objs ?s 3) then ['','', ''\"mA\":1''] else [''\"mA\":1''])"
    and "obj_nonEmpty (objs t 3)"
    by blast
  with c d show ?thesis by (intro exI [of _ t]) simp
qed

subsection \<open>Items without a value\<close>
lemma obj_Item_pauses:
  "obj_Item (Some q) key s = Some (h, t) \<Longrightarrow> obj_paused (objs t q)"
  by (auto simp: obj_Item_def Let_def split: if_splits)

lemma items_paused: "obj_paused (objs s q) \<Longrightarrow> items M (Some q) kcs s = Some s"
  by (induction kcs) (auto simp: obj_Item_paused val_call_nil)

text \<open>
  C3, as the code has it.  \<open>Item\<close> leaves the object context paused until the handle
  it returned is written.  While that handle gets no value, every later
  \<open>k.Item(key).Method(args)\<close> changes nothing: \<open>Item\<close> returns nil and the call on nil
  is dropped.  So \<open>Item("x")\<close> without a value followed by \<open>Item("y").Int(2)\<close> gives \<open>{}\<close>.
\<close>

theorem unresolved_item_blocks:
  "(do { (h, t) \<leftarrow> obj_Item (Some q) key s; items M (Some q) kcs t })
     = map_option snd (obj_Item (Some q) key s)
   \<and> run sample_Marshal [VObject 0 1 [KItem 1 2 ''x'', KItem 1 3 ''y'', VInt 3 2]] = Some ''{}''"
proof
  show "(do { (h, t) \<leftarrow> obj_Item (Some q) key s; items M (Some q) kcs t })
     = map_option snd (obj_Item (Some q) key s)"
  proof (cases "obj_Item (Some q) key s")
    case None
    then show ?thesis by simp
  next
    case (Some r)
    then obtain h t where r: "obj_Item (Some q) key s = Some (h, t)" by (cases r) simp
    from obj_Item_pauses [OF this] have "items M (Some q) kcs t = Some t" by (rule items_paused)
    with r show ?thesis by simp
  qed
  show "run sample_Marshal [VObject 0 1 [KItem 1 2 ''x'', KItem 1 3 ''y'', VInt 3 2]] = Some ''{}''"
    by (simp add: run_defs)
qed

text \<open>
  C3 as stated does not hold: the program of the claim writes \<open>{}\<close>, as the third case of
  \<open>Test_ObjectItemsWithoutValue\<close> expects, not the object with the item \<open>y\<close>.
\<close>

theorem later_item_dropped:
  "run sample_Marshal [VObject 0 1 [KItem 1 2 ''x'', KItem 1 3 ''y'', VInt 3 2]] = Some ''{}''
   \<and> run sample_Marshal [VObject 0 1 [KItem 1 2 ''x'', KItem 1 3 ''y'', VInt 3 2]] \<noteq> Some ''{\"y\":2}''"
  by (simp add: run_defs)

subsection \<open>Handles that outlive their callback\<close>

text \<open>
  C4 fails on the code.  \<open>Object\<close> clears \<open>jso.w\<close> only; an item handle holds its own copy
  of the writer.  A handle from \<open>Item("x")\<close> kept beyond the callback and written after
  \<open>Object\<close> has returned puts \<open>5\<close> behind the closing brace.  And \<open>Marshal\<close> on an object
  context kept beyond its callback (not paused, non-empty map) passes \<open>obj.prewrite\<close> and
  calls \<open>Write\<close> on the nil writer: the run panics.
\<close>
theorem escaped_item_handle_writes:
  "run sample_Marshal [VObject 0 1 [KItem 1 2 ''x''], VInt 2 5] = Some ''{}5''
   \<and> run sample_Marshal [VObject 0 1 [], KMarshal 1 (''{\"a\":1}'', None)] = None"
  by (simp add: run_defs FormatInt_def digits10.simps digit10_def)

subsection \<open>Writes on the outer handle during a callback\<close>

text \<open>
  C8 fails on the code for an item handle.  Its context pauses the object context, not the
  handle, and \<open>val.prewrite\<close> looks at the handle's own \<open>paused\<close>: a write on the item
  handle from inside the function passed to its own \<open>Array\<close> is not dropped.  It writes a
  comma, the key again and the value; without that write the output is the empty array.
\<close>
theorem item_handle_write_in_own_callback:
  "run sample_Marshal [VObject 0 1 [KItem 1 2 ''a'', VArray 2 3 [VInt 2 5]]] = Some ''{\"a\":[,\"a\":5]}''
   \<and> run sample_Marshal [VObject 0 1 [KItem 1 2 ''a'', VArray 2 3 []]] = Some ''{\"a\":[]}''"
  by (simp add: run_defs FormatInt_def digits10.simps digit10_def)

subsection \<open>Writes through a live slot\<close>

lemma written_forward [simp]: "written k (forward a k p s) = written k s @ p"
  by (simp add: written_def)

lemma written_sinks: "sinks t = sinks s \<Longrightarrow> written k t = written k s"
  by (simp add: written_def)

lemma val_prewrite_live:
  assumes "live a k s p c"
  shows "\<exists>s1. val_prewrite M (Some p) s = Some ((True, single_use c), s1)
           \<and> written k s1 = written k s @ concat (lead M s c)
           \<and> vals s1 = (vals s)(p := (vals s p)\<lparr>val_ctx := Some (armed c)\<rparr>)
           \<and> objs s1 = (case item_obj c of None \<Rightarrow> objs s
                          | Some q \<Rightarrow> (objs s)(q := (objs s q)\<lparr>obj_nonEmpty := True\<rparr>))
           \<and> fresh s1 = fresh s \<and> (\<forall>b. ww_w (wws s1 b) = ww_w (wws s b))"
proof (cases c)
  case (jsonContextArray pp ne)
  with assms show ?thesis
    by (simp add: live_def val_prewrite_def Write_attached written_def)
next
  case (jsonContextSingle pp)
  with assms show ?thesis
    by (simp add: live_def val_prewrite_def written_def)
next
  case (jsonContextObjectItem key q)
  with assms show ?thesis
    by (simp add: live_def val_prewrite_def obj_prewrite_def Write_attached written_def)
qed

lemma val_prewrite_pending:
  assumes "live a k s p c"
  shows "\<exists>s1. val_prewrite M (Some p) s = Some ((True, single_use c), s1) \<and> pending M k s p c [] s1"
proof -
  from val_prewrite_live [OF assms, of M] obtain s1
    where pre: "val_prewrite M (Some p) s = Some ((True, single_use c), s1)"
      and w: "written k s1 = written k s @ concat (lead M s c)"
      and v: "vals s1 = (vals s)(p := (vals s p)\<lparr>val_ctx := Some (armed c)\<rparr>)"
      and ob: "objs s1 = (case item_obj c of None \<Rightarrow> objs s
                          | Some q \<Rightarrow> (objs s)(q := (objs s q)\<lparr>obj_nonEmpty := True\<rparr>))"
      and f: "fresh s1 = fresh s" and ww: "\<forall>b. ww_w (wws s1 b) = ww_w (wws s b)"
    by blast
  from assms have np: "\<not> val_paused (vals s p)" by (simp add: live_def)
  have "vals s1 p = (vals s p)\<lparr>val_ctx := Some (armed c), val_paused := False \<and> item_obj c = None\<rparr>"
    using v np by simp
  then have "\<exists>b. vals s1 p = (vals s p)\<lparr>val_ctx := Some (armed c), val_paused := b \<and> item_obj c = None\<rparr>" ..
  moreover have "leaves (Some p) (item_obj c) s s1"
    using v ob f ww by (cases c) (simp_all add: leaves_def)
  moreover have "case item_obj c of None \<Rightarrow> True
     | Some q \<Rightarrow> \<exists>b. objs s1 q = (objs s q)\<lparr>obj_nonEmpty := True, obj_paused := b\<rparr>"
  proof (cases c)
    case (jsonContextObjectItem key q)
    with ob have "objs s1 q = (objs s q)\<lparr>obj_nonEmpty := True\<rparr>" by simp
    then have "\<exists>b. objs s1 q = (objs s q)\<lparr>obj_nonEmpty := True, obj_paused := b\<rparr>"
      by (intro exI [of _ "obj_paused (objs s q)"]) simp
    with jsonContextObjectItem show ?thesis by simp
  qed simp_all
  ultimately show ?thesis using pre w by (auto simp: pending_def)
qed

lemma pending_slot:
  assumes "live a k s p c" and "pending M k s p c txt u"
  shows "val_w (vals u p) = Some a" and "val_ctx (vals u p) = Some (armed c)"
    and "ww_w (wws u a) = Some k" and "fresh s \<le> fresh u"
  using assms by (auto simp: live_def pending_def leaves_def)

lemma pending_forward:
  assumes "live a k s p c" and "pending M k s p c txt u"
  shows "Write (val_w (vals u p)) x u = Some (forward a k x u)"
    and "pending M k s p c (txt @ x) (forward a k x u)"
proof -
  from pending_slot [OF assms] show "Write (val_w (vals u p)) x u = Some (forward a k x u)"
    by (simp add: Write_attached)
  from assms(2) show "pending M k s p c (txt @ x) (forward a k x u)"
    by (simp add: pending_def leaves_def split: option.splits)
qed

lemma pending_pause:
  assumes "live a k s p c" and "pending M k s p c txt u"
  shows "pending M k s p c txt (jsonContext_pause (armed c) on u)"
proof (cases c)
  case (jsonContextArray pp ne)
  with assms(1) have "pp = p" by (simp add: live_def)
  with assms(2) jsonContextArray show ?thesis
    by (auto simp: pending_def leaves_def written_def)
next
  case (jsonContextSingle pp)
  with assms(1) have "pp = p" by (simp add: live_def)
  with assms(2) jsonContextSingle show ?thesis
    by (auto simp: pending_def leaves_def written_def)
next
  case (jsonContextObjectItem key q)
  with assms(2) show ?thesis
    by (auto simp: pending_def leaves_def written_def)
qed

lemma pending_postwrite:
  assumes "live a k s p c" and "pending M k s p c txt u"
  shows "wrote M k s p c txt (val_postwrite p (single_use c) u)"
proof -
  from pending_slot [OF assms] have ctx: "val_ctx (vals u p) = Some (armed c)" by simp
  from assms(1) have np: "\<not> val_paused (vals s p)" and c: "ctx_of a p s c" by (simp_all add: live_def)
  show ?thesis
  proof (cases c)
    case (jsonContextArray pp ne)
    with c have "pp = p" by simp
    with assms(2) jsonContextArray ctx np show ?thesis
      by (auto simp: pending_def wrote_def leaves_def written_def val_postwrite_def spent_def)
  next
    case (jsonContextSingle pp)
    with c have "pp = p" by simp
    with assms(2) jsonContextSingle ctx np show ?thesis
      by (auto simp: pending_def wrote_def leaves_def written_def val_postwrite_def spent_def)
  next
    case (jsonContextObjectItem key q)
    with assms(2) ctx np show ?thesis
      by (auto simp: pending_def wrote_def leaves_def written_def val_postwrite_def spent_def)
  qed
qed

lemma scalar_wrote:
  assumes "live a k s p c"
  shows "\<exists>t. val_scalar M (Some p) sc s = Some t \<and> wrote M k s p c (scalar_text M sc) t"
proof -
  from val_prewrite_pending [OF assms] obtain s1
    where pre: "val_prewrite M (Some p) s = Some ((True, single_use c), s1)"
      and p1: "pending M k s p c [] s1" by blast
  from pending_forward [OF assms p1, of "scalar_text M sc"]
  have w: "Write (val_w (vals s1 p)) (scalar_text M sc) s1 = Some (forward a k (scalar_text M sc) s1)"
    and p2: "pending M k s p c (scalar_text M sc) (forward a k (scalar_text M sc) s1)" by simp_all
  from pre w have "val_scalar M (Some p) sc s
      = Some (val_postwrite p (single_use c) (forward a k (scalar_text M sc) s1))"
    by (simp add: scalar_shape)
  with pending_postwrite [OF assms p2] show ?thesis by simp
qed

lemma marshal_wrote:
  assumes "live a k s p c" and "M x = (bytes, None)"
  shows "\<exists>t. val_Marshal M (Some p) x s = Some (None, t) \<and> wrote M k s p c bytes t"
proof -
  from val_prewrite_pending [OF assms(1)] obtain s1
    where pre: "val_prewrite M (Some p) s = Some ((True, single_use c), s1)"
      and p1: "pending M k s p c [] s1" by blast
  from pending_forward [OF assms(1) p1, of bytes]
  have w: "Write (val_w (vals s1 p)) bytes s1 = Some (forward a k bytes s1)"
    and p2: "pending M k s p c bytes (forward a k bytes s1)" by simp_all
  from pre w assms(2) have "val_Marshal M (Some p) x s
      = Some (None, val_postwrite p (single_use c) (forward a k bytes s1))"
    by (simp add: val_Marshal_def)
  with pending_postwrite [OF assms(1) p2] show ?thesis by simp
qed

text \<open>
  A \<open>Marshal\<close> that fails on a live slot returns the error, and has done all that a
  completed write does but writing the value: the separator of the context is written and
  the slot holds the context a completed write leaves.
\<close>

lemma marshal_failure_wrote:
  assumes "live a k s p c" and "M x = (bytes, Some err)"
  shows "\<exists>t. val_Marshal M (Some p) x s = Some (Some err, t) \<and> wrote M k s p c [] t"
proof -
  from val_prewrite_pending [OF assms(1)] obtain s1
    where pre: "val_prewrite M (Some p) s = Some ((True, single_use c), s1)"
      and p1: "pending M k s p c [] s1" by blast
  from pre assms(2) have "val_Marshal M (Some p) x s
      = Some (Some err, val_postwrite p (single_use c) s1)"
    by (simp add: val_Marshal_def)
  with pending_postwrite [OF assms(1) p1] show ?thesis by simp
qed

lemma enter_array:
  assumes "live a k s p c" and "pending M k s p c txt u"
  defines "s4 \<equiv> u\<lparr>vals := (vals u)(fresh u := \<lparr>val_w = val_w (vals u p),
                 val_ctx = Some (jsonContextArray (fresh u) False), val_paused = False\<rparr>),
               fresh := Suc (fresh u)\<rparr>"
  shows "live a k s4 (fresh u) (jsonContextArray (fresh u) False)"
    and "written k s5 = written k s4 @ body \<Longrightarrow> leaves (Some (fresh u)) None s4 s5 \<Longrightarrow>
         pending M k s p c (txt @ body)
           (s5\<lparr>vals := (vals s5)(fresh u := (vals s5 (fresh u))\<lparr>val_w := None\<rparr>)\<rparr>)"
proof -
  note sl = pending_slot [OF assms(1,2)]
  from sl show "live a k s4 (fresh u) (jsonContextArray (fresh u) False)"
    by (simp add: live_def s4_def)
  assume w: "written k s5 = written k s4 @ body" and l: "leaves (Some (fresh u)) None s4 s5"
  from assms(1) have pf: "p < fresh s" by (simp add: live_def)
  have qf: "\<And>q. item_obj c = Some q \<Longrightarrow> q < fresh s"
    using assms(1) by (cases c) (simp_all add: live_def)
  from l have v5: "\<And>p'. p' < fresh u \<Longrightarrow> vals s5 p' = vals u p'"
    and o5: "\<And>q. q < fresh u \<Longrightarrow> objs s5 q = objs u q"
    and w5: "\<And>b. ww_w (wws s5 b) = ww_w (wws u b)"
    and f5: "fresh u \<le> fresh s5"
    by (auto simp: leaves_def s4_def)
  from w have wr: "concat (chunks (sinks s5 k)) = concat (chunks (sinks u k)) @ body"
    by (simp add: s4_def written_def)
  from assms(2) sl(4) pf qf f5 show "pending M k s p c (txt @ body)
     (s5\<lparr>vals := (vals s5)(fresh u := (vals s5 (fresh u))\<lparr>val_w := None\<rparr>)\<rparr>)"
    unfolding pending_def leaves_def
    by (auto simp: v5 o5 w5 wr written_def split: option.splits)
qed

subsection \<open>Arrays and objects\<close>

lemma val_Array_wrote:
  assumes lv: "live a k s p c"
    and f: "\<And>u A. live a k u A (jsonContextArray A False) \<Longrightarrow>
              \<exists>t. f (Some A) u = Some t \<and> written k t = written k u @ body \<and> leaves (Some A) None u t"
  shows "\<exists>t. val_Array M (Some p) (Some f) s = Some t \<and> wrote M k s p c (''['' @ body @ '']'') t"
proof -
  from val_prewrite_pending [OF lv] obtain s1
    where pre: "val_prewrite M (Some p) s = Some ((True, single_use c), s1)"
      and p1: "pending M k s p c [] s1" by blast
  from pending_slot [OF lv p1] have c1: "val_ctx (vals s1 p) = Some (armed c)" by simp
  let ?s2 = "jsonContext_pause (armed c) True s1"
  from pending_pause [OF lv p1] have p2: "pending M k s p c [] ?s2" .
  let ?s3 = "forward a k ''['' ?s2"
  from pending_forward [OF lv p2, of "''[''"]
  have w3: "Write (val_w (vals ?s2 p)) ''['' ?s2 = Some ?s3"
    and p3: "pending M k s p c ''['' ?s3" by simp_all
  let ?A = "fresh ?s3"
  let ?s4 = "?s3\<lparr>vals := (vals ?s3)(?A := \<lparr>val_w = val_w (vals ?s3 p),
                 val_ctx = Some (jsonContextArray ?A False), val_paused = False\<rparr>),
               fresh := Suc ?A\<rparr>"
  from enter_array(1) [OF lv p3] have "live a k ?s4 ?A (jsonContextArray ?A False)" .
  from f [OF this] obtain s5 where cb: "f (Some ?A) ?s4 = Some s5"
    and w5: "written k s5 = written k ?s4 @ body" and l5: "leaves (Some ?A) None ?s4 s5" by blast
  let ?s6 = "s5\<lparr>vals := (vals s5)(?A := (vals s5 ?A)\<lparr>val_w := None\<rparr>)\<rparr>"
  from enter_array(2) [OF lv p3 w5 l5] have p6: "pending M k s p c (''['' @ body) ?s6" .
  let ?s7 = "forward a k '']'' ?s6"
  from pending_forward [OF lv p6, of "'']''"]
  have w7: "Write (val_w (vals ?s6 p)) '']'' ?s6 = Some ?s7"
    and p7: "pending M k s p c ((''['' @ body) @ '']'') ?s7" by simp_all
  have "val_Array M (Some p) (Some f) s = Some (val_postwrite p (single_use c) ?s7)"
    unfolding val_Array_def
    by (simp only: pre c1 w3 cb w7 Let_def bind.bind_lunit prod.case if_True option.case)
  moreover from pending_postwrite [OF lv p7]
  have "wrote M k s p c (''['' @ body @ '']'') (val_postwrite p (single_use c) ?s7)" by simp
  ultimately show ?thesis by blast
qed

lemma enter_object:
  assumes "live a k s p c" and "pending M k s p c txt u"
  defines "s4 \<equiv> u\<lparr>objs := (objs u)(fresh u := \<lparr>obj_w = val_w (vals u p),
                 obj_nonEmpty = False, obj_paused = False\<rparr>),
               fresh := Suc (fresh u)\<rparr>"
  shows "open_obj a k s4 (fresh u)" and "\<not> obj_nonEmpty (objs s4 (fresh u))"
    and "written k s5 = written k s4 @ body \<Longrightarrow> leaves None (Some (fresh u)) s4 s5 \<Longrightarrow>
         pending M k s p c (txt @ body)
           (s5\<lparr>objs := (objs s5)(fresh u := (objs s5 (fresh u))\<lparr>obj_w := None\<rparr>)\<rparr>)"
proof -
  note sl = pending_slot [OF assms(1,2)]
  from sl show "open_obj a k s4 (fresh u)" "\<not> obj_nonEmpty (objs s4 (fresh u))"
    by (simp_all add: open_obj_def s4_def)
  assume w: "written k s5 = written k s4 @ body" and l: "leaves None (Some (fresh u)) s4 s5"
  from assms(1) have pf: "p < fresh s" by (simp add: live_def)
  have qf: "\<And>q. item_obj c = Some q \<Longrightarrow> q < fresh s"
    using assms(1) by (cases c) (simp_all add: live_def)
  from l have v5: "\<And>p'. p' < fresh u \<Longrightarrow> vals s5 p' = vals u p'"
    and o5: "\<And>q. q < fresh u \<Longrightarrow> objs s5 q = objs u q"
    and w5: "\<And>b. ww_w (wws s5 b) = ww_w (wws u b)"
    and f5: "fresh u \<le> fresh s5"
    by (auto simp: leaves_def s4_def)
  from w have wr: "concat (chunks (sinks s5 k)) = concat (chunks (sinks u k)) @ body"
    by (simp add: s4_def written_def)
  from assms(2) sl(4) pf qf f5 show "pending M k s p c (txt @ body)
     (s5\<lparr>objs := (objs s5)(fresh u := (objs s5 (fresh u))\<lparr>obj_w := None\<rparr>)\<rparr>)"
    unfolding pending_def leaves_def
    by (auto simp: v5 o5 w5 wr written_def split: option.splits)
qed

lemma val_Object_wrote:
  assumes lv: "live a k s p c"
    and f: "\<And>u J. open_obj a k u J \<Longrightarrow> \<not> obj_nonEmpty (objs u J) \<Longrightarrow>
              \<exists>t. f (Some J) u = Some t \<and> written k t = written k u @ body \<and> leaves None (Some J) u t"
  shows "\<exists>t. val_Object M (Some p) (Some f) s = Some t \<and> wrote M k s p c (''{'' @ body @ ''}'') t"
proof -
  from val_prewrite_pending [OF lv] obtain s1
    where pre: "val_prewrite M (Some p) s = Some ((True, single_use c), s1)"
      and p1: "pending M k s p c [] s1" by blast
  from pending_slot [OF lv p1] have c1: "val_ctx (vals s1 p) = Some (armed c)" by simp
  let ?s2 = "jsonContext_pause (armed c) True s1"
  from pending_pause [OF lv p1] have p2: "pending M k s p c [] ?s2" .
  let ?s3 = "forward a k ''{'' ?s2"
  from pending_forward [OF lv p2, of "''{''"]
  have w3: "Write (val_w (vals ?s2 p)) ''{'' ?s2 = Some ?s3"
    and p3: "pending M k s p c ''{'' ?s3" by simp_all
  let ?J = "fresh ?s3"
  let ?s4 = "?s3\<lparr>objs := (objs ?s3)(?J := \<lparr>obj_w = val_w (vals ?s3 p),
                 obj_nonEmpty = False, obj_paused = False\<rparr>),
               fresh := Suc ?J\<rparr>"
  from enter_object(1,2) [OF lv p3] have "open_obj a k ?s4 ?J" "\<not> obj_nonEmpty (objs ?s4 ?J)" .
  from f [OF this] obtain s5 where cb: "f (Some ?J) ?s4 = Some s5"
    and w5: "written k s5 = written k ?s4 @ body" and l5: "leaves None (Some ?J) ?s4 s5" by blast
  let ?s6 = "s5\<lparr>objs := (objs s5)(?J := (objs s5 ?J)\<lparr>obj_w := None\<rparr>)\<rparr>"
  from enter_object(3) [OF lv p3 w5 l5] have p6: "pending M k s p c (''{'' @ body) ?s6" .
  let ?s7 = "forward a k ''}'' ?s6"
  from pending_forward [OF lv p6, of "''}''"]
  have w7: "Write (val_w (vals ?s6 p)) ''}'' ?s6 = Some ?s7"
    and p7: "pending M k s p c ((''{'' @ body) @ ''}'') ?s7" by simp_all
  have "val_Object M (Some p) (Some f) s = Some (val_postwrite p (single_use c) ?s7)"
    unfolding val_Object_def
    by (simp only: pre c1 w3 cb w7 Let_def bind.bind_lunit prod.case if_True option.case)
  moreover from pending_postwrite [OF lv p7]
  have "wrote M k s p c (''{'' @ body @ ''}'') (val_postwrite p (single_use c) ?s7)" by simp
  ultimately show ?thesis by blast
qed

subsection \<open>Whole documents\<close>

lemma commas_Cons: "commas (x # xs) = x @ (if xs = [] then [] else '','' @ commas xs)"
  by (cases xs) simp_all

lemma render_elems_Nil: "render_elems M es = [] \<longleftrightarrow> es = []"
  by (cases es) simp_all

lemma render_items_Nil: "render_items M kvs = [] \<longleftrightarrow> kvs = []"
  by (cases kvs) auto

lemma leaves_trans: "leaves P Q s t \<Longrightarrow> leaves P Q t u \<Longrightarrow> leaves P Q s u"
  by (auto simp: leaves_def)

lemma put_elems_wrote:
  assumes IH: "\<And>e s p c. e \<in> set es \<Longrightarrow> live a k s p c \<Longrightarrow> marshals M e \<Longrightarrow>
                 \<exists>t. put M e (Some p) s = Some t \<and> wrote M k s p c (render M e) t"
    and "live a k s A (jsonContextArray A ne)" and "marshals_elems M es"
  shows "\<exists>t. put_elems M es (Some A) s = Some t
           \<and> written k t = written k s @ (if ne \<and> es \<noteq> [] then '','' else []) @ commas (render_elems M es)
           \<and> leaves (Some A) None s t
           \<and> vals t A = (vals s A)\<lparr>val_ctx := Some (jsonContextArray A (ne \<or> es \<noteq> []))\<rparr>"
  using assms
proof (induction es arbitrary: s ne)
  case Nil
  then show ?case by (simp add: leaves_def live_def)
next
  case (Cons e es)
  from Cons.prems(3) have me: "marshals M e" and mes: "marshals_elems M es" by simp_all
  from Cons.prems(1) [OF _ Cons.prems(2) me] obtain t1
    where e1: "put M e (Some A) s = Some t1"
      and w1: "wrote M k s A (jsonContextArray A ne) (render M e) t1" by auto
  from w1 have wr1: "written k t1 = written k s @ (if ne then '','' else []) @ render M e"
    and l1: "leaves (Some A) None s t1"
    and v1: "vals t1 A = (vals s A)\<lparr>val_ctx := Some (jsonContextArray A True)\<rparr>"
    by (simp_all add: wrote_def spent_def)
  from Cons.prems(2) l1 v1 have lv1: "live a k t1 A (jsonContextArray A True)"
    by (auto simp: live_def leaves_def)
  have "\<exists>t. put_elems M es (Some A) t1 = Some t
           \<and> written k t = written k t1 @ (if True \<and> es \<noteq> [] then '','' else []) @ commas (render_elems M es)
           \<and> leaves (Some A) None t1 t
           \<and> vals t A = (vals t1 A)\<lparr>val_ctx := Some (jsonContextArray A (True \<or> es \<noteq> []))\<rparr>"
    by (rule Cons.IH [OF _ lv1 mes]) (rule Cons.prems(1), simp_all)
  then obtain t2 where e2: "put_elems M es (Some A) t1 = Some t2"
    and wr2: "written k t2 = written k t1 @ (if es \<noteq> [] then '','' else []) @ commas (render_elems M es)"
    and l2: "leaves (Some A) None t1 t2"
    and v2: "vals t2 A = (vals t1 A)\<lparr>val_ctx := Some (jsonContextArray A True)\<rparr>"
    by auto
  from e1 e2 have "put_elems M (e # es) (Some A) s = Some t2" by simp
  moreover from wr1 wr2 have "written k t2 = written k s @ (if ne \<and> e # es \<noteq> [] then '','' else [])
      @ commas (render_elems M (e # es))"
    by (simp add: commas_Cons render_elems_Nil)
  moreover from l1 l2 have "leaves (Some A) None s t2" by (rule leaves_trans)
  moreover from v1 v2 have "vals t2 A = (vals s A)\<lparr>val_ctx := Some (jsonContextArray A (ne \<or> e # es \<noteq> []))\<rparr>"
    by simp
  ultimately show ?case by blast
qed

lemma obj_Item_open:
  fixes key :: string
  assumes "open_obj a k s J"
  defines "s' \<equiv> s\<lparr>objs := (objs s)(J := (objs s J)\<lparr>obj_paused := True\<rparr>),
                vals := (vals s)(fresh s := \<lparr>val_w = obj_w (objs s J),
                  val_ctx = Some (jsonContextObjectItem key J), val_paused = False\<rparr>),
                fresh := Suc (fresh s)\<rparr>"
  shows "obj_Item (Some J) key s = Some (Some (fresh s), s')"
    and "live a k s' (fresh s) (jsonContextObjectItem key J)"
    and "wrote M k s' (fresh s) (jsonContextObjectItem key J) txt u \<Longrightarrow>
           open_obj a k u J
         \<and> written k u = written k s @ (if obj_nonEmpty (objs s J) then '','' else [])
              @ fst (M (GoString key)) @ '':'' @ txt
         \<and> leaves None (Some J) s u
         \<and> objs u J = (objs s J)\<lparr>obj_nonEmpty := True\<rparr>"
proof -
  from assms(1) show "obj_Item (Some J) key s = Some (Some (fresh s), s')"
    by (simp add: obj_Item_def open_obj_def s'_def Let_def)
  from assms(1) show "live a k s' (fresh s) (jsonContextObjectItem key J)"
    by (simp add: live_def open_obj_def s'_def)
  assume "wrote M k s' (fresh s) (jsonContextObjectItem key J) txt u"
  with assms(1) show "open_obj a k u J
         \<and> written k u = written k s @ (if obj_nonEmpty (objs s J) then '','' else [])
              @ fst (M (GoString key)) @ '':'' @ txt
         \<and> leaves None (Some J) s u
         \<and> objs u J = (objs s J)\<lparr>obj_nonEmpty := True\<rparr>"
    by (auto simp: wrote_def open_obj_def leaves_def s'_def written_def)
qed

lemma put_items_wrote:
  assumes IH: "\<And>key e s p c. (key, e) \<in> set kvs \<Longrightarrow> live a k s p c \<Longrightarrow> marshals M e \<Longrightarrow>
                 \<exists>t. put M e (Some p) s = Some t \<and> wrote M k s p c (render M e) t"
    and "open_obj a k s J" and "marshals_items M kvs"
  shows "\<exists>t. put_items M kvs (Some J) s = Some t
           \<and> written k t = written k s @ (if obj_nonEmpty (objs s J) \<and> kvs \<noteq> [] then '','' else [])
                @ commas (render_items M kvs)
           \<and> leaves None (Some J) s t
           \<and> objs t J = (objs s J)\<lparr>obj_nonEmpty := obj_nonEmpty (objs s J) \<or> kvs \<noteq> []\<rparr>"
  using assms
proof (induction kvs arbitrary: s)
  case Nil
  then show ?case by (simp add: leaves_def)
next
  case (Cons kv kvs)
  obtain key e where kv: "kv = (key, e)" by (cases kv)
  from Cons.prems(3) kv have me: "marshals M e" and mes: "marshals_items M kvs" by simp_all
  let ?i = "fresh s"
  let ?s' = "s\<lparr>objs := (objs s)(J := (objs s J)\<lparr>obj_paused := True\<rparr>),
                vals := (vals s)(fresh s := \<lparr>val_w = obj_w (objs s J),
                  val_ctx = Some (jsonContextObjectItem key J), val_paused = False\<rparr>),
                fresh := Suc (fresh s)\<rparr>"
  note it1 = obj_Item_open(1) [OF Cons.prems(2), where key = key]
    and it2 = obj_Item_open(2) [OF Cons.prems(2), where key = key]
    and it3 = obj_Item_open(3) [OF Cons.prems(2), where key = key and M = M]
  from Cons.prems(1) [OF _ it2 me] kv obtain u
    where e1: "put M e (Some ?i) ?s' = Some u"
      and w1: "wrote M k ?s' ?i (jsonContextObjectItem key J) (render M e) u" by auto
  from it3 [OF w1] have o1: "open_obj a k u J"
    and wr1: "written k u = written k s @ (if obj_nonEmpty (objs s J) then '','' else [])
              @ fst (M (GoString key)) @ '':'' @ render M e"
    and l1: "leaves None (Some J) s u"
    and ob1: "objs u J = (objs s J)\<lparr>obj_nonEmpty := True\<rparr>" by simp_all
  have "\<exists>t. put_items M kvs (Some J) u = Some t
           \<and> written k t = written k u @ (if obj_nonEmpty (objs u J) \<and> kvs \<noteq> [] then '','' else [])
                @ commas (render_items M kvs)
           \<and> leaves None (Some J) u t
           \<and> objs t J = (objs u J)\<lparr>obj_nonEmpty := obj_nonEmpty (objs u J) \<or> kvs \<noteq> []\<rparr>"
  proof (rule Cons.IH [OF _ o1 mes])
    fix key' e' s' p' c'
    assume "(key', e') \<in> set kvs" and "live a k s' p' c'" and "marshals M e'"
    then show "\<exists>t. put M e' (Some p') s' = Some t \<and> wrote M k s' p' c' (render M e') t"
      using Cons.prems(1) [of key' e' s' p' c'] by simp
  qed
  then obtain t2 where e2: "put_items M kvs (Some J) u = Some t2"
    and wr2: "written k t2 = written k u @ (if kvs \<noteq> [] then '','' else []) @ commas (render_items M kvs)"
    and l2: "leaves None (Some J) u t2"
    and ob2: "objs t2 J = (objs u J)\<lparr>obj_nonEmpty := True\<rparr>"
    using ob1 by auto
  from it1 e1 e2 kv have "put_items M (kv # kvs) (Some J) s = Some t2" by simp
  moreover from wr1 wr2 kv have "written k t2 = written k s
      @ (if obj_nonEmpty (objs s J) \<and> kv # kvs \<noteq> [] then '','' else [])
      @ commas (render_items M (kv # kvs))"
    by (simp add: commas_Cons render_items_Nil)
  moreover from l1 l2 have "leaves None (Some J) s t2" by (rule leaves_trans)
  moreover from ob1 ob2 have "objs t2 J = (objs s J)\<lparr>obj_nonEmpty := obj_nonEmpty (objs s J) \<or> kv # kvs \<noteq> []\<rparr>"
    by simp
  ultimately show ?case by blast
qed

text \<open>
  Writing a document through any live slot returns, and the writer receives the
  separator of the slot's context followed by the JSON text of the document.
\<close>

lemma put_wrote:
  "live a k s p c \<Longrightarrow> marshals M e \<Longrightarrow>
   \<exists>t. put M e (Some p) s = Some t \<and> wrote M k s p c (render M e) t"
proof (induction e arbitrary: s p c)
  case (JScalar sc)
  then show ?case by (simp add: scalar_wrote)
next
  case (JMarshal x)
  then have "M x = (fst (M x), None)" by (cases "M x") simp
  from marshal_wrote [where M = M and x = x, OF JMarshal.prems(1) this] show ?case by auto
next
  case (JArray es)
  have "\<exists>t. val_Array M (Some p) (Some (\<lambda>a t. put_elems M es a t)) s = Some t
          \<and> wrote M k s p c (''['' @ commas (render_elems M es) @ '']'') t"
  proof (rule val_Array_wrote [OF JArray.prems(1)])
    fix u A assume lv: "live a k u A (jsonContextArray A False)"
    from JArray.prems(2) have "marshals_elems M es" by simp
    from put_elems_wrote [OF _ lv this] JArray.IH
    show "\<exists>t. put_elems M es (Some A) u = Some t
            \<and> written k t = written k u @ commas (render_elems M es) \<and> leaves (Some A) None u t"
      by fastforce
  qed
  then show ?case by simp
next
  case (JObject kvs)
  have "\<exists>t. val_Object M (Some p) (Some (\<lambda>k t. put_items M kvs k t)) s = Some t
          \<and> wrote M k s p c (''{'' @ commas (render_items M kvs) @ ''}'') t"
  proof (rule val_Object_wrote [OF JObject.prems(1)])
    fix u J assume op: "open_obj a k u J" and ne: "\<not> obj_nonEmpty (objs u J)"
    from JObject.prems(2) have m: "marshals_items M kvs" by simp
    have "\<exists>t. put_items M kvs (Some J) u = Some t
           \<and> written k t = written k u @ (if obj_nonEmpty (objs u J) \<and> kvs \<noteq> [] then '','' else [])
                @ commas (render_items M kvs)
           \<and> leaves None (Some J) u t
           \<and> objs t J = (objs u J)\<lparr>obj_nonEmpty := obj_nonEmpty (objs u J) \<or> kvs \<noteq> []\<rparr>"
    proof (rule put_items_wrote [OF _ op m])
      fix key e s p c
      assume "(key, e) \<in> set kvs" and "live a k s p c" and "marshals M e"
      with JObject.IH [of "(key, e)" e] show "\<exists>t. put M e (Some p) s = Some t \<and> wrote M k s p c (render M e) t"
        by simp
    qed
    with ne show "\<exists>t. put_items M kvs (Some J) u = Some t
            \<and> written k t = written k u @ commas (render_items M kvs) \<and> leaves None (Some J) u t"
      by auto
  qed
  then show ?case by simp
qed

lemma render_elems_map: "render_elems M es = map (render M) es"
  by (induction es) simp_all

lemma marshals_elems_all: "marshals_elems M es \<longleftrightarrow> (\<forall>e\<in>set es. marshals M e)"
  by (induction es) simp_all

lemma length_commas: "length (commas xs) = sum_list (map length xs) + (length xs - 1)"
  by (induction xs rule: commas.induct) simp_all

lemma NewStreamWriter_live:
  assumes "NewStreamWriter (Some k) s = (v, s1)"
  shows "\<exists>p. v = Some p \<and> live (fresh s) k s1 p (jsonContextSingle p) \<and> written k s1 = written k s"
  using assms by (auto simp: NewStreamWriter_def Let_def live_def written_def)

lemma wrote_root:
  assumes "wrote M k s p (jsonContextSingle p) txt t"
  shows "written k t = written k s @ txt" and "val_Finished (Some p) t = Some True"
  using assms by (simp_all add: wrote_def spent_def val_Finished_def)

text \<open>
  C6.  \<open>Array\<close> on the root slot of a fresh stream writer, its function writing the
  \<open>N\<close> elements \<open>es\<close> one after the other through the handle it receives (scalars,
  marshaled values, nested arrays and objects; every \<open>Marshal\<close> among them succeeds).  The
  call returns and the writer has received the opening bracket, the texts of the elements
  joined by commas, and the closing bracket.  The joined part is as long as the texts
  together plus \<open>N - 1\<close>: one comma between neighbours, none before the first element or
  after the last, none at all for \<open>N \<le> 1\<close>.
\<close>

theorem array_output:
  assumes "\<forall>e\<in>set es. marshals M e"
  shows "(let (v, s1) = NewStreamWriter (Some k) s
          in \<exists>t. val_Array M v (Some (\<lambda>a u. put_elems M es a u)) s1 = Some t
               \<and> written k t = written k s @ ''['' @ commas (map (render M) es) @ '']''
               \<and> val_Finished v t = Some True)
         \<and> length (commas (map (render M) es))
             = sum_list (map length (map (render M) es)) + (length es - 1)"
proof
  obtain v s1 where n: "NewStreamWriter (Some k) s = (v, s1)" by (cases "NewStreamWriter (Some k) s")
  from NewStreamWriter_live [OF n] obtain p where v: "v = Some p"
    and lv: "live (fresh s) k s1 p (jsonContextSingle p)"
    and w1: "written k s1 = written k s" by blast
  from assms have m: "marshals_elems M es" by (simp add: marshals_elems_all)
  have "\<exists>t. val_Array M (Some p) (Some (\<lambda>a u. put_elems M es a u)) s1 = Some t
          \<and> wrote M k s1 p (jsonContextSingle p) (''['' @ commas (render_elems M es) @ '']'') t"
  proof (rule val_Array_wrote [OF lv])
    fix u A assume la: "live (fresh s) k u A (jsonContextArray A False)"
    have "\<exists>t. put_elems M es (Some A) u = Some t
           \<and> written k t = written k u @ (if False \<and> es \<noteq> [] then '','' else []) @ commas (render_elems M es)
           \<and> leaves (Some A) None u t
           \<and> vals t A = (vals u A)\<lparr>val_ctx := Some (jsonContextArray A (False \<or> es \<noteq> []))\<rparr>"
      by (rule put_elems_wrote [OF _ la m]) (rule put_wrote)
    then show "\<exists>t. put_elems M es (Some A) u = Some t
            \<and> written k t = written k u @ commas (render_elems M es) \<and> leaves (Some A) None u t"
      by auto
  qed
  then obtain t where "val_Array M (Some p) (Some (\<lambda>a u. put_elems M es a u)) s1 = Some t"
    and "wrote M k s1 p (jsonContextSingle p) (''['' @ commas (render_elems M es) @ '']'') t" by blast
  with wrote_root [OF this(2)] w1 n v
  show "let (v, s1) = NewStreamWriter (Some k) s
          in \<exists>t. val_Array M v (Some (\<lambda>a u. put_elems M es a u)) s1 = Some t
               \<and> written k t = written k s @ ''['' @ commas (map (render M) es) @ '']''
               \<and> val_Finished v t = Some True"
    by (simp add: render_elems_map)
  show "length (commas (map (render M) es))
             = sum_list (map length (map (render M) es)) + (length es - 1)"
    by (simp add: length_commas)
qed

theorem array_output_witness:
  "(let (v, s1) = NewStreamWriter (Some 0) (boot builder)
    in \<exists>t. val_Array sample_Marshal v
              (Some (\<lambda>a u. put_elems sample_Marshal
                 [JScalar (SInt 123), JScalar (SString ''Hello''), JScalar (SBool True)] a u)) s1 = Some t
          \<and> written 0 t = ''[123,\"Hello\",true]''
          \<and> val_Finished v t = Some True)
   \<and> length ''123,\"Hello\",true'' = (3 + 7 + 4) + (3 - 1)"
proof -
  have "\<forall>e\<in>set [JScalar (SInt 123), JScalar (SString ''Hello''), JScalar (SBool True)].
          marshals sample_Marshal e" by simp
  from array_output [OF this, of 0 "boot builder"]
  show ?thesis
    by (simp add: written_def boot_def builder_def FormatInt_def digits10.simps digit10_def)
qed

text \<open>A whole document written to the root slot: the output is its JSON text.\<close>

lemma document_output:
  assumes "marshals M e"
  shows "let (v, s1) = NewStreamWriter (Some k) s
         in \<exists>t. put M e v s1 = Some t \<and> written k t = written k s @ render M e
              \<and> val_Finished v t = Some True"
proof -
  obtain v s1 where n: "NewStreamWriter (Some k) s = (v, s1)" by (cases "NewStreamWriter (Some k) s")
  from NewStreamWriter_live [OF n] obtain p where v: "v = Some p"
    and lv: "live (fresh s) k s1 p (jsonContextSingle p)"
    and w1: "written k s1 = written k s" by blast
  from put_wrote [OF lv assms] obtain t where "put M e (Some p) s1 = Some t"
    and "wrote M k s1 p (jsonContextSingle p) (render M e) t" by blast
  with wrote_root [OF this(2)] w1 n v show ?thesis by simp
qed

end
